theory Spec2Isabelle
  imports Main
begin

section \<open>Values shared by the batch script and the interactive service\<close>

text \<open>
  Both programs are sequential \<^verbatim>\<open>async\<close> code: the only points where the outside world
  acts are the awaited promises. An awaited promise resolves with a value, rejects with an
  error, or never settles. An error is represented by its \<^verbatim>\<open>message\<close>: every error the
  two programs catch is an \<^verbatim>\<open>Error\<close> object thrown by the code itself or by the
  \<^verbatim>\<open>ethers\<close> library.
\<close>

type_synonym js_error = string
type_synonym txhash = string
type_synonym address = string

datatype 'a outcome = Resolved 'a | Rejected js_error | Pending

subsection \<open>Strings: \<^verbatim>\<open>toLowerCase\<close>, \<^verbatim>\<open>includes\<close>, \<^verbatim>\<open>x || default\<close>\<close>

definition lower_char :: "char \<Rightarrow> char" where
  "lower_char c =
     (let n = (of_char c :: nat) in if 65 \<le> n \<and> n \<le> 90 then char_of (n + 32) else c)"

definition toLowerCase :: "string \<Rightarrow> string" where
  "toLowerCase s = map lower_char s"

fun starts_with :: "string \<Rightarrow> string \<Rightarrow> bool" where
  "starts_with s [] = True"
| "starts_with [] (p # ps) = False"
| "starts_with (c # cs) (p # ps) = (c = p \<and> starts_with cs ps)"

fun includes_str :: "string \<Rightarrow> string \<Rightarrow> bool" where
  "includes_str [] p = (p = [])"
| "includes_str (c # cs) p = (starts_with (c # cs) p \<or> includes_str cs p)"

text \<open>
  The strings compared after \<^verbatim>\<open>toLowerCase\<close> (\<^verbatim>\<open>true\<close>, \<^verbatim>\<open>slow\<close>, \<^verbatim>\<open>user rejected\<close>,
  \<^verbatim>\<open>4001\<close>) contain no letter that a character outside ASCII maps to, so lowering the
  letters \<^verbatim>\<open>A\<close> to \<^verbatim>\<open>Z\<close> byte by byte gives the same answers.

  \<^verbatim>\<open>process.env.X || d\<close>: an unset variable and the empty string are both falsy.
\<close>

definition env_or :: "string option \<Rightarrow> string \<Rightarrow> string" where
  "env_or v d = (case v of None \<Rightarrow> d | Some s \<Rightarrow> if s = [] then d else s)"

text \<open>Truthiness of a \<^verbatim>\<open>bigint | null\<close>: \<^verbatim>\<open>null\<close> and \<^verbatim>\<open>0n\<close> are falsy.\<close>

definition truthy :: "int option \<Rightarrow> bool" where
  "truthy v = (case v of None \<Rightarrow> False | Some n \<Rightarrow> n \<noteq> 0)"

subsection \<open>The library function \<^verbatim>\<open>ethers.parseUnits\<close>\<close>

text \<open>
  \<^verbatim>\<open>parseUnits(value, decimals)\<close> belongs to the \<^verbatim>\<open>ethers\<close> library, not to the repository.
  It accepts a decimal literal, an optional minus sign, digits, an optional point and digits,
  with at least one digit; it throws when a non-zero digit lies beyond \<^verbatim>\<open>decimals\<close> places
  or when the result does not fit 512 signed bits, and returns the literal scaled by
  \<open>10 ^ decimals\<close>. The unit name \<^verbatim>\<open>'gwei'\<close> stands for 9 decimals; USDC amounts use 6.
\<close>

definition is_digit :: "char \<Rightarrow> bool" where
  "is_digit c = (let n = (of_char c :: nat) in 48 \<le> n \<and> n \<le> 57)"

definition digits_value :: "string \<Rightarrow> nat" where
  "digits_value ds = foldl (\<lambda>acc c. 10 * acc + ((of_char c :: nat) - 48)) 0 ds"

definition parseUnits :: "string \<Rightarrow> nat \<Rightarrow> js_error + int" where
  "parseUnits v decimals =
     (let negative = (case v of [] \<Rightarrow> False | c # cs \<Rightarrow> c = CHR ''-'');
          body = (if negative then tl v else v);
          whole = takeWhile is_digit body;
          rest = dropWhile is_digit body;
          rest' = (case rest of [] \<Rightarrow> [] | c # cs \<Rightarrow> if c = CHR ''.'' then cs else rest);
          frac = takeWhile is_digit rest';
          junk = dropWhile is_digit rest'
      in if junk \<noteq> [] \<or> (whole = [] \<and> frac = [])
         then Inl ''invalid FixedNumber string value''
         else if \<not> list_all (\<lambda>c. c = CHR ''0'') (drop decimals frac)
         then Inl ''too many decimals for format''
         else
           let magnitude =
                 int (digits_value whole * 10 ^ decimals
                      + digits_value (take decimals frac) * 10 ^ (decimals - length frac));
               n = (if negative then - magnitude else magnitude)
           in if - (2 ^ 511) \<le> n \<and> n < 2 ^ 511 then Inr n else Inl ''overflow'')"

text \<open>\<^verbatim>\<open>ethers.MaxUint256\<close>, the amount of every approval.\<close>

definition MaxUint256 :: int where
  "MaxUint256 = 2 ^ 256 - 1"

section \<open>The batch script\<close>

text \<open>
  \<^verbatim>\<open>scripts/batch_send.js\<close>. The script reads its configuration from the environment, aborts when the signing key is
  missing, approves the router once if needed and then sends the swaps one after the other.
  What it observes of the world is given by the answers of the awaited calls; what it does is
  recorded as the list of calls it makes.
\<close>

record batch_env =
  PRIVATE_KEY :: "string option"
  TOTAL_SWAPS :: "int option"  \<comment> \<open>the constant after \<^verbatim>\<open>parseInt\<close>; \<^verbatim>\<open>None\<close> is \<^verbatim>\<open>NaN\<close>\<close>
  AMOUNT :: "string option"
  GAS_MODE :: "string option"
  SLOW_GAS :: "string option"
  PRIORITY_GWEI :: "string option"
  MAXFEE_ADD_GWEI :: "string option"

record block =
  baseFeePerGas :: "int option"

record fee_data =
  fd_maxFeePerGas :: "int option"
  fd_gasPrice :: "int option"

record overrides =
  gasLimit :: "nat option"
  maxPriorityFeePerGas :: "int option"
  maxFeePerGas :: "int option"

text \<open>The answers of the world; those inside the loop depend on the index of the swap.\<close>

record batch_world =
  new_Wallet :: "js_error + address"
  usdc_allowance :: "int outcome"
  usdc_approve :: "txhash outcome"
  approve_wait :: "unit outcome"
  estimateGas :: "nat \<Rightarrow> nat outcome"
  getBlock :: "nat \<Rightarrow> block option outcome"
  getFeeData :: "nat \<Rightarrow> fee_data outcome"
  execute :: "nat \<Rightarrow> txhash outcome"
  tx_wait :: "nat \<Rightarrow> unit outcome"

datatype action =
    CallAllowance
  | SendApprove int
  | AwaitApprove
  | CallEstimateGas nat
  | CallGetBlock nat
  | CallGetFeeData nat
  | SendSwap nat overrides
  | AwaitReceipt nat
  | Sleep

datatype exit = Exit nat | Uncaught js_error | NoExit

subsection \<open>Gas limit (lines 86 to 95)\<close>

text \<open>
  \<^verbatim>\<open>overrides.gasLimit = BigInt(estimatedGas) * 110n / 100n\<close> when the estimate resolves,
  \<^verbatim>\<open>800000n\<close> when it throws. A gas estimate is a non-negative quantity, so the
  truncating division of \<^verbatim>\<open>BigInt\<close> is \<open>div\<close> on \<open>nat\<close>. \<^verbatim>\<open>None\<close> stands for an
  estimate that never answers: the script does not get past the \<^verbatim>\<open>await\<close>.
\<close>

definition gas_overrides :: "nat outcome \<Rightarrow> overrides option" where
  "gas_overrides r =
     (case r of
        Resolved estimatedGas \<Rightarrow>
          Some \<lparr>gasLimit = Some (estimatedGas * 110 div 100),
                maxPriorityFeePerGas = None, maxFeePerGas = None\<rparr>
      | Rejected eg \<Rightarrow>
          Some \<lparr>gasLimit = Some 800000, maxPriorityFeePerGas = None, maxFeePerGas = None\<rparr>
      | Pending \<Rightarrow> None)"

subsection \<open>Slow gas mode (lines 96 to 123)\<close>

definition slow_gas_mode :: "batch_env \<Rightarrow> bool" where
  "slow_gas_mode e =
     (toLowerCase (env_or (SLOW_GAS e) ''false'') = ''true''
      \<or> toLowerCase (env_or (GAS_MODE e) []) = ''slow'')"

text \<open>
  \<^verbatim>\<open>block && block.baseFeePerGas ? BigInt(block.baseFeePerGas) : null\<close>: a missing block, a
  missing base fee and a base fee of zero all give \<^verbatim>\<open>null\<close>.
\<close>

definition baseFee_of :: "block option \<Rightarrow> int option" where
  "baseFee_of blk =
     (case blk of
        None \<Rightarrow> None
      | Some b \<Rightarrow> if truthy (baseFeePerGas b) then baseFeePerGas b else None)"

text \<open>
  \<^verbatim>\<open>feeData.maxFeePerGas || feeData.gasPrice || ethers.parseUnits('1', 'gwei')\<close>; the last
  operand is evaluated only when the first two are falsy.
\<close>

definition fallbackMax_of :: "fee_data \<Rightarrow> js_error + int" where
  "fallbackMax_of fd =
     (if truthy (fd_maxFeePerGas fd) then Inr (the (fd_maxFeePerGas fd))
      else if truthy (fd_gasPrice fd) then Inr (the (fd_gasPrice fd))
      else parseUnits ''1'' 9)"

text \<open>
  The body of the inner \<^verbatim>\<open>try\<close>: any throw or rejection inside it leaves the overrides as
  they were (\<^verbatim>\<open>catch (feeErr)\<close>). The result is the list of calls made and the overrides,
  or \<^verbatim>\<open>None\<close> when an awaited call never answers.
\<close>

definition slow_gas_overrides ::
  "batch_env \<Rightarrow> batch_world \<Rightarrow> nat \<Rightarrow> overrides \<Rightarrow> action list \<times> overrides option" where
  "slow_gas_overrides e w i ov =
     (if \<not> slow_gas_mode e then ([], Some ov)
      else
        case getBlock w i of
          Pending \<Rightarrow> ([CallGetBlock i], None)
        | Rejected feeErr \<Rightarrow> ([CallGetBlock i], Some ov)
        | Resolved blk \<Rightarrow>
            let baseFee = baseFee_of blk in
            (case parseUnits (env_or (PRIORITY_GWEI e) ''0.1'') 9 of
               Inl feeErr \<Rightarrow> ([CallGetBlock i], Some ov)
             | Inr priority \<Rightarrow>
                 (case parseUnits (env_or (MAXFEE_ADD_GWEI e) ''1'') 9 of
                    Inl feeErr \<Rightarrow> ([CallGetBlock i], Some ov)
                  | Inr extra \<Rightarrow>
                      if truthy baseFee then
                        ([CallGetBlock i],
                         Some (ov\<lparr>maxPriorityFeePerGas := Some priority,
                                  maxFeePerGas := Some (the baseFee + extra + priority)\<rparr>))
                      else
                        (case getFeeData w i of
                           Pending \<Rightarrow> ([CallGetBlock i, CallGetFeeData i], None)
                         | Rejected feeErr \<Rightarrow> ([CallGetBlock i, CallGetFeeData i], Some ov)
                         | Resolved feeData \<Rightarrow>
                             (case fallbackMax_of feeData of
                                Inl feeErr \<Rightarrow> ([CallGetBlock i, CallGetFeeData i], Some ov)
                              | Inr fallbackMax \<Rightarrow>
                                  ([CallGetBlock i, CallGetFeeData i],
                                   Some (ov\<lparr>maxPriorityFeePerGas := Some priority,
                                            maxFeePerGas :=
                                              Some (fallbackMax + extra + priority)\<rparr>)))))))"

text \<open>The overrides handed to \<^verbatim>\<open>router.execute\<close> for swap \<open>i\<close>, with the calls made for them.\<close>

definition swap_overrides ::
  "batch_env \<Rightarrow> batch_world \<Rightarrow> nat \<Rightarrow> action list \<times> overrides option" where
  "swap_overrides e w i =
     (case gas_overrides (estimateGas w i) of
        None \<Rightarrow> ([CallEstimateGas i], None)
      | Some ov \<Rightarrow>
          (case slow_gas_overrides e w i ov of
             (calls, r) \<Rightarrow> (CallEstimateGas i # calls, r)))"

subsection \<open>Approval (lines 53 to 68)\<close>

text \<open>
  The comparison \<^verbatim>\<open>BigInt(currentAllowance) < BigInt(amountInUnits) * BigInt(TOTAL_SWAPS)\<close>
  is evaluated after the allowance has been read; \<^verbatim>\<open>BigInt(NaN)\<close> throws, which the
  \<^verbatim>\<open>catch\<close> of the approval step turns into exit code 1, as it does every rejection.
\<close>

datatype approval = ApprovalDone | ApprovalFailed | ApprovalStuck

definition approve_if_needed ::
  "batch_env \<Rightarrow> batch_world \<Rightarrow> int \<Rightarrow> action list \<times> approval" where
  "approve_if_needed e w amountInUnits =
     (case usdc_allowance w of
        Pending \<Rightarrow> ([CallAllowance], ApprovalStuck)
      | Rejected err \<Rightarrow> ([CallAllowance], ApprovalFailed)
      | Resolved currentAllowance \<Rightarrow>
          (case TOTAL_SWAPS e of
             None \<Rightarrow> ([CallAllowance], ApprovalFailed)
           | Some swaps \<Rightarrow>
               if currentAllowance < amountInUnits * swaps then
                 (case usdc_approve w of
                    Pending \<Rightarrow> ([CallAllowance, SendApprove MaxUint256], ApprovalStuck)
                  | Rejected err \<Rightarrow> ([CallAllowance, SendApprove MaxUint256], ApprovalFailed)
                  | Resolved tx \<Rightarrow>
                      (case approve_wait w of
                         Pending \<Rightarrow> ([CallAllowance, SendApprove MaxUint256, AwaitApprove], ApprovalStuck)
                       | Rejected err \<Rightarrow>
                           ([CallAllowance, SendApprove MaxUint256, AwaitApprove], ApprovalFailed)
                       | Resolved u \<Rightarrow>
                           ([CallAllowance, SendApprove MaxUint256, AwaitApprove], ApprovalDone)))
               else ([CallAllowance], ApprovalDone)))"

subsection \<open>One iteration of the loop (lines 74 to 135)\<close>

text \<open>\<^verbatim>\<open>if (i < TOTAL_SWAPS - 1) await sleep(DELAY_MS)\<close>, at the end of the \<^verbatim>\<open>try\<close> and in the \<^verbatim>\<open>catch\<close>.\<close>

definition sleep_between :: "int \<Rightarrow> nat \<Rightarrow> action list" where
  "sleep_between swaps i = (if int i < swaps - 1 then [Sleep] else [])"

text \<open>
  The result says whether the iteration came to its end (\<^verbatim>\<open>True\<close>) or is stuck at an
  \<^verbatim>\<open>await\<close> that never answers. A rejected \<^verbatim>\<open>execute\<close> or \<^verbatim>\<open>tx.wait()\<close> is caught and logged.
\<close>

definition swap_iteration ::
  "batch_env \<Rightarrow> batch_world \<Rightarrow> int \<Rightarrow> nat \<Rightarrow> action list \<times> bool" where
  "swap_iteration e w swaps i =
     (case swap_overrides e w i of
        (calls, None) \<Rightarrow> (calls, False)
      | (calls, Some ov) \<Rightarrow>
          (case execute w i of
             Pending \<Rightarrow> (calls @ [SendSwap i ov], False)
           | Rejected err \<Rightarrow> (calls @ [SendSwap i ov] @ sleep_between swaps i, True)
           | Resolved tx \<Rightarrow>
               (case tx_wait w i of
                  Pending \<Rightarrow> (calls @ [SendSwap i ov, AwaitReceipt i], False)
                | Rejected err \<Rightarrow>
                    (calls @ [SendSwap i ov, AwaitReceipt i] @ sleep_between swaps i, True)
                | Resolved u \<Rightarrow>
                    (calls @ [SendSwap i ov, AwaitReceipt i] @ sleep_between swaps i, True))))"

subsection \<open>The loop and the script (lines 16 to 19, 38 to 140)\<close>

function batch_loop ::
  "batch_env \<Rightarrow> batch_world \<Rightarrow> int \<Rightarrow> nat \<Rightarrow> action list \<times> exit" where
  "batch_loop e w swaps i =
     (if int i < swaps then
        (case swap_iteration e w swaps i of
           (calls, False) \<Rightarrow> (calls, NoExit)
         | (calls, True) \<Rightarrow>
             (case batch_loop e w swaps (Suc i) of (rest, x) \<Rightarrow> (calls @ rest, x)))
      else ([], Exit 0))"
  by pat_completeness auto
termination
  by (relation "measure (\<lambda>(e, w, swaps, i). nat (swaps - int i))") auto

declare batch_loop.simps [simp del]

text \<open>
  An unset or empty \<^verbatim>\<open>PRIVATE_KEY\<close> is falsy. The wallet constructor and the parsing of
  \<^verbatim>\<open>AMOUNT\<close> stand outside every \<^verbatim>\<open>try\<close>: when they throw, the script dies with an uncaught
  error. With \<^verbatim>\<open>TOTAL_SWAPS\<close> being \<^verbatim>\<open>NaN\<close> the loop condition is false at once.
\<close>

definition batch_send :: "batch_env \<Rightarrow> batch_world \<Rightarrow> action list \<times> exit" where
  "batch_send e w =
     (if env_or (PRIVATE_KEY e) [] = [] then ([], Exit 1)
      else
        case new_Wallet w of
          Inl err \<Rightarrow> ([], Uncaught err)
        | Inr address \<Rightarrow>
            (case parseUnits (env_or (AMOUNT e) ''0.01'') 6 of
               Inl err \<Rightarrow> ([], Uncaught err)
             | Inr amountInUnits \<Rightarrow>
                 (case approve_if_needed e w amountInUnits of
                    (calls, ApprovalFailed) \<Rightarrow> (calls, Exit 1)
                  | (calls, ApprovalStuck) \<Rightarrow> (calls, NoExit)
                  | (calls, ApprovalDone) \<Rightarrow>
                      (case TOTAL_SWAPS e of
                         None \<Rightarrow> (calls, Exit 0)
                       | Some swaps \<Rightarrow>
                           (case batch_loop e w swaps 0 of
                              (rest, x) \<Rightarrow> (calls @ rest, x))))))"

section \<open>The interactive service and its loop\<close>

text \<open>
  \<^verbatim>\<open>startAutomatedSwaps\<close> of the front end (\<^verbatim>\<open>App.tsx\<close>) drives \<^verbatim>\<open>approveUSDC\<close> and
  \<^verbatim>\<open>swapUSDCtoETH\<close> of \<^verbatim>\<open>EthereumService\<close> (\<^verbatim>\<open>services/ethereumService.ts\<close>). The code
  between two \<^verbatim>\<open>await\<close>s runs without interruption, so the run is a state machine: a phase
  names the \<^verbatim>\<open>await\<close> at which the run is parked, an event is what the outside world does
  next (a promise settles, a timer fires, a button is clicked, the chain confirms a
  transaction, the page is unmounted), and a step runs the code up to the next \<^verbatim>\<open>await\<close>.
  There is one logical thread: a run is started only when none is under way.
\<close>

record app_config =
  amountPerSwap :: string
  totalSwaps :: int
  wallet_address :: "address option"  \<comment> \<open>\<^verbatim>\<open>wallet.address\<close> of the front end\<close>
  signer :: bool  \<comment> \<open>whether \<^verbatim>\<open>this.signer\<close> of the service is set\<close>
  MAX_PENDING_TRANSACTIONS :: nat  \<comment> \<open>1 in the source\<close>
  txIds :: "nat \<Rightarrow> string"  \<comment> \<open>the random identifier drawn for swap \<open>i\<close>\<close>

text \<open>
  The ways out of the loop: its condition became false (\<^verbatim>\<open>Finished\<close>), a \<^verbatim>\<open>break\<close>
  (\<^verbatim>\<open>Stopped\<close>), or the outer \<^verbatim>\<open>catch\<close> (\<^verbatim>\<open>Critical\<close>).
\<close>

datatype ending = Finished | Stopped | Critical js_error

datatype phase =
    Idle
  | ApproveAddress  \<comment> \<open>\<^verbatim>\<open>approveUSDC\<close>: \<^verbatim>\<open>await this.signer.getAddress()\<close>\<close>
  | ApproveAllowance  \<comment> \<open>\<^verbatim>\<open>await usdcContract.allowance(...)\<close>\<close>
  | ApproveSend  \<comment> \<open>\<^verbatim>\<open>await usdcContract.approve(...)\<close>\<close>
  | ApproveWait  \<comment> \<open>\<^verbatim>\<open>await tx.wait()\<close>\<close>
  | SlotWait nat  \<comment> \<open>\<^verbatim>\<open>waitForTransactionSlot\<close>: the 200 ms sleep\<close>
  | SwapAddress nat  \<comment> \<open>\<^verbatim>\<open>swapUSDCtoETH\<close>: \<^verbatim>\<open>await this.signer.getAddress()\<close>\<close>
  | InWallet nat string  \<comment> \<open>the caller awaits \<^verbatim>\<open>trackingPromise\<close> of the entry\<close>
  | Delay nat  \<comment> \<open>the 15 s sleep after a dispatch\<close>
  | Ended ending

datatype status = StatusPending | StatusSuccess | StatusError

datatype message =
    Starting
  | CheckingAllowance
  | Approved
  | Initiating nat
  | TransactionSent nat txhash
  | Failed nat js_error
  | StoppedByUser
  | RejectedByUser
  | CriticalError js_error
  | AllTasksFinished
  | Stopping

datatype service_call =
    GetAddress
  | QueryAllowance
  | IssueApprove int
  | AwaitApproval
  | RouterExecute nat

datatype event =
    Start
  | StopClick
  | Timer
  | AddressResult "js_error + address"
  | AllowanceResult "js_error + int"
  | ApproveResult "js_error + txhash"
  | ApproveReceipt "js_error + unit"
  | ExecuteResult "js_error + txhash"
  | ChainConfirms txhash
  | Unmount

text \<open>
  \<open>pendingTransactions\<close> holds the keys of the \<^verbatim>\<open>Map\<close> in insertion order; \<open>logs\<close> is
  \<^verbatim>\<open>allLogsRef.current\<close>, newest first; \<open>calls\<close> lists, oldest first, the calls the current
  run has made to the wallet and the node; \<open>confirmed\<close> lists the transactions the chain has
  confirmed, which the service never reads.
\<close>

record app_state =
  phase :: phase
  pendingTransactions :: "string list"
  stopRequested :: bool
  logs :: "(status \<times> message) list"
  calls :: "service_call list"
  confirmed :: "txhash list"

definition initial :: app_state where
  "initial = \<lparr>phase = Idle, pendingTransactions = [], stopRequested = False, logs = [],
               calls = [], confirmed = []\<rparr>"

subsection \<open>The pending map\<close>

definition map_set :: "string \<Rightarrow> string list \<Rightarrow> string list" where
  "map_set k ks = (if k \<in> set ks then ks else ks @ [k])"

definition map_delete :: "string \<Rightarrow> string list \<Rightarrow> string list" where
  "map_delete k ks = removeAll k ks"

text \<open>
  \<^verbatim>\<open>getPendingTransactionCount\<close> returns the size of the map. The handlers it attaches delete
  an entry once the promise of that entry has settled, which is when the handler of
  \<^verbatim>\<open>swapUSDCtoETH\<close> has deleted it already.
\<close>

definition getPendingTransactionCount :: "app_state \<Rightarrow> nat" where
  "getPendingTransactionCount s = length (pendingTransactions s)"

definition cleanup :: "app_state \<Rightarrow> app_state" where
  "cleanup s = s\<lparr>pendingTransactions := []\<rparr>"

subsection \<open>The front end: logging, the ways out of the run\<close>

definition addLog :: "status \<Rightarrow> message \<Rightarrow> app_state \<Rightarrow> app_state" where
  "addLog st m s = s\<lparr>logs := (st, m) # logs s\<rparr>"

text \<open>The \<^verbatim>\<open>finally\<close> block (lines 150 to 157).\<close>

definition finish :: "ending \<Rightarrow> app_state \<Rightarrow> app_state" where
  "finish how s = (cleanup (addLog StatusPending AllTasksFinished s))\<lparr>phase := Ended how\<rparr>"

text \<open>The outer \<^verbatim>\<open>catch\<close> (lines 148 and 149).\<close>

definition critical :: "js_error \<Rightarrow> app_state \<Rightarrow> app_state" where
  "critical err s = finish (Critical err) (addLog StatusError (CriticalError err) s)"

text \<open>The test of the inner \<^verbatim>\<open>catch\<close> (line 142).\<close>

definition isUserRejection :: "js_error \<Rightarrow> bool" where
  "isUserRejection msg =
     (includes_str (toLowerCase msg) ''user rejected'' \<or> includes_str (toLowerCase msg) ''4001'')"

subsection \<open>\<^verbatim>\<open>swapUSDCtoETH\<close> up to its first \<^verbatim>\<open>await\<close> on the outside world\<close>

text \<open>
  \<^verbatim>\<open>after_slot\<close> is the code after \<^verbatim>\<open>waitForTransactionSlot\<close> has returned (lines 201 and
  202); \<^verbatim>\<open>slot_check\<close> is one evaluation of the loop condition of \<^verbatim>\<open>waitForTransactionSlot\<close>;
  \<^verbatim>\<open>swap_start\<close> is the entry of \<^verbatim>\<open>swapUSDCtoETH\<close>. \<^verbatim>\<open>Inl\<close> is a throw, \<^verbatim>\<open>Inr\<close> the state in
  which the call is parked.
\<close>

definition after_slot :: "app_config \<Rightarrow> nat \<Rightarrow> app_state \<Rightarrow> js_error + app_state" where
  "after_slot cfg i s =
     (case parseUnits (amountPerSwap cfg) 6 of
        Inl err \<Rightarrow> Inl err
      | Inr amountInUnits \<Rightarrow> Inr (s\<lparr>phase := SwapAddress i, calls := calls s @ [GetAddress]\<rparr>))"

definition slot_check :: "app_config \<Rightarrow> nat \<Rightarrow> app_state \<Rightarrow> js_error + app_state" where
  "slot_check cfg i s =
     (if getPendingTransactionCount s \<ge> MAX_PENDING_TRANSACTIONS cfg
      then Inr (s\<lparr>phase := SlotWait i\<rparr>)
      else after_slot cfg i s)"

definition swap_start :: "app_config \<Rightarrow> nat \<Rightarrow> app_state \<Rightarrow> js_error + app_state" where
  "swap_start cfg i s =
     (if \<not> signer cfg then Inl ''Wallet not connected'' else slot_check cfg i s)"

subsection \<open>The loop of \<^verbatim>\<open>startAutomatedSwaps\<close> (lines 119 to 147)\<close>

text \<open>
  \<^verbatim>\<open>loop_head\<close> runs the loop from the test \<^verbatim>\<open>i < config.totalSwaps\<close> until the run is parked
  or has ended. A swap that throws before it is parked is caught at once and the loop goes on,
  hence the recursion.
\<close>

function loop_head :: "app_config \<Rightarrow> nat \<Rightarrow> app_state \<Rightarrow> app_state" where
  "loop_head cfg i s =
     (if \<not> int i < totalSwaps cfg then finish Finished s
      else if stopRequested s then finish Stopped (addLog StatusError StoppedByUser s)
      else
        let s1 = addLog StatusPending (Initiating i) s in
        (case swap_start cfg i s1 of
           Inr parked \<Rightarrow> parked
         | Inl err \<Rightarrow>
             let s2 = addLog StatusError (Failed i err) s1 in
             if isUserRejection err
             then finish Stopped (addLog StatusError RejectedByUser s2)
             else loop_head cfg (Suc i) s2))"
  by pat_completeness auto
termination
  by (relation "measure (\<lambda>(cfg, i, s). nat (totalSwaps cfg - int i))") auto

declare loop_head.simps [simp del]

text \<open>The inner \<^verbatim>\<open>catch\<close> (lines 140 to 146) for a swap that fails after it was parked.\<close>

definition swap_failed :: "app_config \<Rightarrow> nat \<Rightarrow> js_error \<Rightarrow> app_state \<Rightarrow> app_state" where
  "swap_failed cfg i err s =
     (let s2 = addLog StatusError (Failed i err) s in
      if isUserRejection err
      then finish Stopped (addLog StatusError RejectedByUser s2)
      else loop_head cfg (Suc i) s2)"

subsection \<open>\<^verbatim>\<open>approveUSDC\<close> (lines 178 to 193) and the start of the run (lines 103 to 117)\<close>

text \<open>
  \<^verbatim>\<open>start\<close> runs from the click to the first \<^verbatim>\<open>await\<close> of \<^verbatim>\<open>approveUSDC\<close>; \<^verbatim>\<open>on_allowance\<close>
  is the comparison of line 188 and what follows it; \<^verbatim>\<open>approved\<close> is the return to the front
  end. The source parses the amount once, before the first \<^verbatim>\<open>await\<close>; \<^verbatim>\<open>on_allowance\<close>
  parses the same string again, with the same result.
\<close>

definition start :: "app_config \<Rightarrow> app_state \<Rightarrow> app_state" where
  "start cfg s =
     (if wallet_address cfg = None then s
      else
        let s0 = addLog StatusPending CheckingAllowance
                   (addLog StatusPending Starting
                      (s\<lparr>stopRequested := False, logs := [], calls := []\<rparr>))
        in if \<not> signer cfg then critical ''Wallet not connected'' s0
           else
             (case parseUnits (amountPerSwap cfg) 6 of
                Inl err \<Rightarrow> critical err s0
              | Inr amountInUnits \<Rightarrow>
                  s0\<lparr>phase := ApproveAddress, calls := calls s0 @ [GetAddress]\<rparr>))"

definition approved :: "app_config \<Rightarrow> app_state \<Rightarrow> app_state" where
  "approved cfg s = loop_head cfg 0 (addLog StatusSuccess Approved s)"

definition on_allowance :: "app_config \<Rightarrow> int \<Rightarrow> app_state \<Rightarrow> app_state" where
  "on_allowance cfg allowance s =
     (case parseUnits (amountPerSwap cfg) 6 of
        Inl err \<Rightarrow> critical err s
      | Inr amountInUnits \<Rightarrow>
          if allowance \<ge> amountInUnits then approved cfg s
          else s\<lparr>phase := ApproveSend, calls := calls s @ [IssueApprove MaxUint256]\<rparr>)"

subsection \<open>The rest of \<^verbatim>\<open>swapUSDCtoETH\<close> (lines 204 to 243)\<close>

text \<open>
  With the address at hand the call \<^verbatim>\<open>router.execute\<close> is made, the identifier is drawn and
  the entry is put into the map; the caller then awaits the tracking promise. When the promise
  of \<^verbatim>\<open>router.execute\<close> settles, the entry is deleted and the hash is returned or the error
  thrown again.
\<close>

definition dispatch :: "app_config \<Rightarrow> nat \<Rightarrow> app_state \<Rightarrow> app_state" where
  "dispatch cfg i s =
     (let txId = txIds cfg i in
      s\<lparr>phase := InWallet i txId,
        calls := calls s @ [RouterExecute i],
        pendingTransactions := map_set txId (pendingTransactions s)\<rparr>)"

definition settled :: "app_config \<Rightarrow> nat \<Rightarrow> string \<Rightarrow> js_error + txhash \<Rightarrow> app_state \<Rightarrow> app_state" where
  "settled cfg i txId r s =
     (let s1 = s\<lparr>pendingTransactions := map_delete txId (pendingTransactions s)\<rparr> in
      case r of
        Inr hash \<Rightarrow> (addLog StatusSuccess (TransactionSent i hash) s1)\<lparr>phase := Delay i\<rparr>
      | Inl err \<Rightarrow> swap_failed cfg i err s1)"

subsection \<open>One step of the run\<close>

definition running :: "app_state \<Rightarrow> bool" where
  "running s = (case phase s of Idle \<Rightarrow> False | Ended how \<Rightarrow> False | _ \<Rightarrow> True)"

definition step :: "app_config \<Rightarrow> app_state \<Rightarrow> event \<Rightarrow> app_state" where
  "step cfg s ev =
     (case ev of
        Start \<Rightarrow> (if running s then s else start cfg s)
      | StopClick \<Rightarrow>
          (if running s
           then addLog StatusPending Stopping (s\<lparr>stopRequested := True\<rparr>)
           else s)
      | Unmount \<Rightarrow> cleanup s
      | ChainConfirms h \<Rightarrow> s\<lparr>confirmed := h # confirmed s\<rparr>
      | Timer \<Rightarrow>
          (case phase s of
             SlotWait i \<Rightarrow>
               (case slot_check cfg i s of
                  Inr parked \<Rightarrow> parked
                | Inl err \<Rightarrow> swap_failed cfg i err s)
           | Delay i \<Rightarrow> loop_head cfg (Suc i) s
           | _ \<Rightarrow> s)
      | AddressResult r \<Rightarrow>
          (case phase s of
             ApproveAddress \<Rightarrow>
               (case r of
                  Inl err \<Rightarrow> critical err s
                | Inr a \<Rightarrow> s\<lparr>phase := ApproveAllowance, calls := calls s @ [QueryAllowance]\<rparr>)
           | SwapAddress i \<Rightarrow>
               (case r of
                  Inl err \<Rightarrow> swap_failed cfg i err s
                | Inr recipient \<Rightarrow> dispatch cfg i s)
           | _ \<Rightarrow> s)
      | AllowanceResult r \<Rightarrow>
          (case phase s of
             ApproveAllowance \<Rightarrow>
               (case r of Inl err \<Rightarrow> critical err s | Inr a \<Rightarrow> on_allowance cfg a s)
           | _ \<Rightarrow> s)
      | ApproveResult r \<Rightarrow>
          (case phase s of
             ApproveSend \<Rightarrow>
               (case r of
                  Inl err \<Rightarrow> critical err s
                | Inr tx \<Rightarrow> s\<lparr>phase := ApproveWait, calls := calls s @ [AwaitApproval]\<rparr>)
           | _ \<Rightarrow> s)
      | ApproveReceipt r \<Rightarrow>
          (case phase s of
             ApproveWait \<Rightarrow> (case r of Inl err \<Rightarrow> critical err s | Inr u \<Rightarrow> approved cfg s)
           | _ \<Rightarrow> s)
      | ExecuteResult r \<Rightarrow>
          (case phase s of InWallet i txId \<Rightarrow> settled cfg i txId r s | _ \<Rightarrow> s))"

definition run :: "app_config \<Rightarrow> event list \<Rightarrow> app_state" where
  "run cfg evs = foldl (step cfg) initial evs"

section \<open>Reading a list of calls\<close>

text \<open>The indices of the swaps sent by the batch script, in the order of sending.\<close>

fun swap_index :: "action \<Rightarrow> nat option" where
  "swap_index (SendSwap i ov) = Some i"
| "swap_index a = None"

definition sent_swaps :: "action list \<Rightarrow> nat list" where
  "sent_swaps tr = List.map_filter swap_index tr"

text \<open>Every call awaited by iteration \<open>i\<close> of the batch loop is answered.\<close>

definition answers :: "batch_world \<Rightarrow> nat \<Rightarrow> bool" where
  "answers w i =
     (estimateGas w i \<noteq> Pending \<and> getBlock w i \<noteq> Pending \<and> getFeeData w i \<noteq> Pending
      \<and> execute w i \<noteq> Pending \<and> tx_wait w i \<noteq> Pending)"

text \<open>The indices of the swaps dispatched by the interactive run, and its approvals.\<close>

fun execute_index :: "service_call \<Rightarrow> nat option" where
  "execute_index (RouterExecute i) = Some i"
| "execute_index c = None"

definition dispatched :: "service_call list \<Rightarrow> nat list" where
  "dispatched cs = List.map_filter execute_index cs"

fun is_approve :: "service_call \<Rightarrow> bool" where
  "is_approve (IssueApprove a) = True"
| "is_approve c = False"

definition approvals :: "service_call list \<Rightarrow> service_call list" where
  "approvals cs = filter is_approve cs"

section \<open>What holds along a run\<close>

text \<open>\<^verbatim>\<open>parseUnits(amount, 6)\<close> does not throw on the configured amount.\<close>

definition parsed_ok :: "app_config \<Rightarrow> bool" where
  "parsed_ok cfg = (case parseUnits (amountPerSwap cfg) 6 of Inl err \<Rightarrow> False | Inr a \<Rightarrow> True)"

text \<open>
  While a run is under way the signer is set and the amount parses (\<^verbatim>\<open>approveUSDC\<close> has
  checked both); the map holds at most the entry of the swap whose dispatch is awaited; a swap
  that is past \<^verbatim>\<open>waitForTransactionSlot\<close> has seen a free slot; no approval has been issued
  before the allowance is known.
\<close>

definition consistent :: "app_config \<Rightarrow> app_state \<Rightarrow> bool" where
  "consistent cfg s =
     ((if running s then signer cfg \<and> parsed_ok cfg else True)
      \<and> (case phase s of
            InWallet i t \<Rightarrow>
              t = txIds cfg i \<and> 0 < MAX_PENDING_TRANSACTIONS cfg
              \<and> (pendingTransactions s = [] \<or> pendingTransactions s = [t])
          | SwapAddress i \<Rightarrow> pendingTransactions s = [] \<and> 0 < MAX_PENDING_TRANSACTIONS cfg
          | ApproveAddress \<Rightarrow> pendingTransactions s = [] \<and> approvals (calls s) = []
          | ApproveAllowance \<Rightarrow> pendingTransactions s = [] \<and> approvals (calls s) = []
          | _ \<Rightarrow> pendingTransactions s = []))"



text \<open>The run is in the loop of swaps or has ended.\<close>

definition past_approval :: "app_state \<Rightarrow> bool" where
  "past_approval s =
     (case phase s of
        SlotWait i \<Rightarrow> True | SwapAddress i \<Rightarrow> True | InWallet i t \<Rightarrow> True | Delay i \<Rightarrow> True
      | Ended how \<Rightarrow> True | _ \<Rightarrow> False)"

section \<open>Example inputs\<close>

text \<open>A batch run of two swaps in slow gas mode; the gas estimate of the second swap fails.\<close>

definition env1 :: batch_env where
  "env1 = \<lparr>PRIVATE_KEY = Some ''0xkey'', TOTAL_SWAPS = Some 2, AMOUNT = None, GAS_MODE = None,
            SLOW_GAS = Some ''true'', PRIORITY_GWEI = None, MAXFEE_ADD_GWEI = None\<rparr>"

definition world1 :: batch_world where
  "world1 = \<lparr>new_Wallet = Inr ''0xme'', usdc_allowance = Resolved 0,
              usdc_approve = Resolved ''0xa0'', approve_wait = Resolved (),
              estimateGas = (\<lambda>i. if i = 0 then Resolved 150000 else Rejected ''reverted''),
              getBlock = (\<lambda>i. Resolved (Some \<lparr>baseFeePerGas = Some 10000000000\<rparr>)),
              getFeeData = (\<lambda>i. Rejected ''unused''),
              execute = (\<lambda>i. Resolved ''0xswap''),
              tx_wait = (\<lambda>i. Resolved ())\<rparr>"

text \<open>The same run without a signing key, on a chain whose base fee is zero, with an
  approval that the node rejects, and with swaps that the node rejects.\<close>

definition env_no_key :: batch_env where
  "env_no_key = env1\<lparr>PRIVATE_KEY := None\<rparr>"


definition world_rejected_approval :: batch_world where
  "world_rejected_approval = world1\<lparr>usdc_approve := Rejected ''insufficient funds for gas''\<rparr>"

definition world_failing_swaps :: batch_world where
  "world_failing_swaps = world1\<lparr>execute := (\<lambda>i. Rejected ''nonce too low'')\<rparr>"

text \<open>
  An interactive run of two swaps of 0.01 USDC, the same with ten swaps, and the batch script
  with ten swaps and an allowance of 0.01 USDC.
\<close>

definition cfg2 :: app_config where
  "cfg2 = \<lparr>amountPerSwap = ''0.01'', totalSwaps = 2, wallet_address = Some ''0xme'',
            signer = True, MAX_PENDING_TRANSACTIONS = 1,
            txIds = (\<lambda>i. if i = 0 then ''k3x9q0a1z'' else ''p7m2c5d8e'')\<rparr>"

definition cfg10 :: app_config where
  "cfg10 = cfg2\<lparr>totalSwaps := 10\<rparr>"

definition env10 :: batch_env where
  "env10 = env1\<lparr>TOTAL_SWAPS := Some 10\<rparr>"

definition world10 :: batch_world where
  "world10 = world1\<lparr>usdc_allowance := Resolved 10000\<rparr>"

section \<open>Facts about the batch script\<close>



lemma slow_gas_overrides_calls:
  "slow_gas_overrides e w i ov = (cs, r) \<Longrightarrow> set cs \<subseteq> {CallGetBlock i, CallGetFeeData i}"
  unfolding slow_gas_overrides_def Let_def
  by (auto split: if_splits outcome.splits sum.splits)


lemma swap_overrides_calls:
  "swap_overrides e w i = (cs, r) \<Longrightarrow>
     set cs \<subseteq> {CallEstimateGas i, CallGetBlock i, CallGetFeeData i}"
  unfolding swap_overrides_def
  by (auto split: option.splits prod.splits dest!: slow_gas_overrides_calls)

lemma swap_iteration_SendSwap:
  assumes "SendSwap j ov \<in> set (fst (swap_iteration e w swaps i))"
  shows "j = i \<and> (\<exists>cs. swap_overrides e w i = (cs, Some ov))"
proof -
  obtain cs r where so: "swap_overrides e w i = (cs, r)"
    by (cases "swap_overrides e w i")
  have no: "SendSwap j ov \<notin> set cs"
    using swap_overrides_calls [OF so] by auto
  show ?thesis
    using assms no so unfolding swap_iteration_def sleep_between_def
    by (auto split: option.splits outcome.splits if_splits)
qed


lemma approve_if_needed_calls:
  "approve_if_needed e w a = (cs, r) \<Longrightarrow>
     set cs \<subseteq> {CallAllowance, SendApprove MaxUint256, AwaitApprove}"
  unfolding approve_if_needed_def
  by (auto split: outcome.splits option.splits if_splits)

lemma approve_if_needed_no_swap:
  "approve_if_needed e w a = (cs, r) \<Longrightarrow> SendSwap j ov \<notin> set cs"
  using approve_if_needed_calls [of e w a cs r] by auto


lemma swap_overrides_answers:
  "answers w i \<Longrightarrow> \<exists>cs ov. swap_overrides e w i = (cs, Some ov)"
  unfolding swap_overrides_def slow_gas_overrides_def gas_overrides_def answers_def Let_def
  by (auto split: outcome.splits sum.splits option.splits)

lemma swap_iteration_answers:
  "answers w i \<Longrightarrow> snd (swap_iteration e w swaps i)"
  using swap_overrides_answers [of w i e]
  unfolding swap_iteration_def answers_def
  by (auto split: outcome.splits)

lemma sent_swaps_Nil [simp]: "sent_swaps [] = []"
  by (simp add: sent_swaps_def map_filter_def)

lemma sent_swaps_Cons [simp]:
  "sent_swaps (a # xs) =
     (case swap_index a of None \<Rightarrow> sent_swaps xs | Some i \<Rightarrow> i # sent_swaps xs)"
  by (simp add: sent_swaps_def map_filter_def split: option.splits)







lemma approve_done_swaps:
  "approve_if_needed e w a = (cs, ApprovalDone) \<Longrightarrow> \<exists>n. TOTAL_SWAPS e = Some n"
  unfolding approve_if_needed_def
  by (auto split: outcome.splits option.splits if_splits)

lemma batch_send_done:
  assumes "env_or (PRIVATE_KEY e) [] \<noteq> []" and "new_Wallet w = Inr a"
    and "parseUnits (env_or (AMOUNT e) ''0.01'') 6 = Inr amt"
    and "approve_if_needed e w amt = (cs, ApprovalDone)" and "TOTAL_SWAPS e = Some n"
  shows "batch_send e w = (cs @ fst (batch_loop e w n 0), snd (batch_loop e w n 0))"
  using assms unfolding batch_send_def by (simp add: case_prod_beta)



lemma batch_send_SendSwapE:
  assumes "SendSwap j ov \<in> set (fst (batch_send e w))"
  obtains a amt cs n where "env_or (PRIVATE_KEY e) [] \<noteq> []" and "new_Wallet w = Inr a"
    and "parseUnits (env_or (AMOUNT e) ''0.01'') 6 = Inr amt"
    and "approve_if_needed e w amt = (cs, ApprovalDone)" and "TOTAL_SWAPS e = Some n"
proof -
  from assms have k: "env_or (PRIVATE_KEY e) [] \<noteq> []"
    unfolding batch_send_def by (auto split: if_splits)
  from assms k obtain a where a: "new_Wallet w = Inr a"
    unfolding batch_send_def by (cases "new_Wallet w") auto
  from assms k a obtain amt where amt: "parseUnits (env_or (AMOUNT e) ''0.01'') 6 = Inr amt"
    unfolding batch_send_def by (cases "parseUnits (env_or (AMOUNT e) ''0.01'') 6") auto
  obtain cs r where ap: "approve_if_needed e w amt = (cs, r)"
    by (cases "approve_if_needed e w amt")
  from assms k a amt ap approve_if_needed_no_swap [OF ap] have "r = ApprovalDone"
    unfolding batch_send_def by (cases r) auto
  with ap approve_done_swaps [of e w amt cs] k a amt that show thesis by blast
qed

lemma batch_loop_split:
  "SendSwap j ov \<in> set (fst (batch_loop e w swaps i)) \<Longrightarrow> i \<le> k \<Longrightarrow> k < j \<Longrightarrow>
     \<exists>pre. fst (batch_loop e w swaps i)
              = pre @ fst (swap_iteration e w swaps k) @ fst (batch_loop e w swaps (Suc k))
         \<and> snd (swap_iteration e w swaps k)
         \<and> SendSwap j ov \<in> set (fst (batch_loop e w swaps (Suc k)))"
proof (induction e w swaps i rule: batch_loop.induct)
  case (1 e w swaps i)
  have lt: "int i < swaps"
    using "1.prems"(1) by (auto simp: batch_loop.simps [of e w swaps i] split: if_splits)
  obtain cs ok where it: "swap_iteration e w swaps i = (cs, ok)"
    by (cases "swap_iteration e w swaps i")
  have "SendSwap j ov \<notin> set cs"
    using swap_iteration_SendSwap [of j ov e w swaps i] it "1.prems"(2,3) by auto
  with "1.prems"(1) lt it have ok: ok
      and nxt: "SendSwap j ov \<in> set (fst (batch_loop e w swaps (Suc i)))"
    by (auto simp: batch_loop.simps [of e w swaps i] split: prod.splits bool.splits)
  have unf: "fst (batch_loop e w swaps i) = cs @ fst (batch_loop e w swaps (Suc i))"
    using lt it ok by (simp add: batch_loop.simps [of e w swaps i] case_prod_beta)
  show ?case
  proof (cases "k = i")
    case True
    with unf it ok nxt show ?thesis by auto
  next
    case False
    with "1.prems"(2) have "Suc i \<le> k" by simp
    from "1.IH" [OF lt it [symmetric] _ nxt this "1.prems"(3)] ok
    obtain pre where
      "fst (batch_loop e w swaps (Suc i))
         = pre @ fst (swap_iteration e w swaps k) @ fst (batch_loop e w swaps (Suc k))"
      "snd (swap_iteration e w swaps k)"
      "SendSwap j ov \<in> set (fst (batch_loop e w swaps (Suc k)))"
      by auto
    with unf show ?thesis by (intro exI [of _ "cs @ pre"]) simp
  qed
qed

lemma swap_iteration_confirmed:
  assumes "snd (swap_iteration e w swaps i)" and "execute w i = Resolved tx"
  shows "tx_wait w i \<noteq> Pending
       \<and> (\<exists>cs ov rest. fst (swap_iteration e w swaps i)
                          = cs @ SendSwap i ov # AwaitReceipt i # rest)"
  using assms unfolding swap_iteration_def
  by (auto split: prod.splits option.splits outcome.splits)

lemma batch_awaits_receipt:
  assumes "SendSwap (Suc i) ov' \<in> set (fst (batch_send e w))" and "execute w i = Resolved tx"
  shows "tx_wait w i \<noteq> Pending
       \<and> (\<exists>pre post. fst (batch_send e w) = pre @ AwaitReceipt i # post
             \<and> (\<exists>ov. SendSwap i ov \<in> set pre) \<and> SendSwap (Suc i) ov' \<in> set post)"
proof -
  from assms(1) obtain a amt cs n where
    h: "env_or (PRIVATE_KEY e) [] \<noteq> []" "new_Wallet w = Inr a"
       "parseUnits (env_or (AMOUNT e) ''0.01'') 6 = Inr amt"
       "approve_if_needed e w amt = (cs, ApprovalDone)" "TOTAL_SWAPS e = Some n"
    by (rule batch_send_SendSwapE)
  then have eq: "fst (batch_send e w) = cs @ fst (batch_loop e w n 0)"
    using batch_send_done [of e w a amt cs n] by simp
  with assms(1) approve_if_needed_no_swap [OF h(4)]
  have "SendSwap (Suc i) ov' \<in> set (fst (batch_loop e w n 0))" by auto
  from batch_loop_split [OF this, of i] obtain pre where
    sp: "fst (batch_loop e w n 0)
           = pre @ fst (swap_iteration e w n i) @ fst (batch_loop e w n (Suc i))"
    and ok: "snd (swap_iteration e w n i)"
    and nx: "SendSwap (Suc i) ov' \<in> set (fst (batch_loop e w n (Suc i)))"
    by auto
  from swap_iteration_confirmed [OF ok assms(2)] obtain cs' ov rest where
    w: "tx_wait w i \<noteq> Pending"
    and it: "fst (swap_iteration e w n i) = cs' @ SendSwap i ov # AwaitReceipt i # rest"
    by auto
  have "fst (batch_send e w)
          = (cs @ pre @ cs' @ [SendSwap i ov]) @ AwaitReceipt i
              # (rest @ fst (batch_loop e w n (Suc i)))"
    using eq sp it by simp
  moreover have "SendSwap i ov \<in> set (cs @ pre @ cs' @ [SendSwap i ov])" by simp
  moreover have "SendSwap (Suc i) ov' \<in> set (rest @ fst (batch_loop e w n (Suc i)))"
    using nx by simp
  ultimately show ?thesis using w by blast
qed

lemma batch_loop_exit_bounded:
  "(\<And>j. i \<le> j \<Longrightarrow> int j < swaps \<Longrightarrow> answers w j) \<Longrightarrow> snd (batch_loop e w swaps i) = Exit 0"
proof (induction e w swaps i rule: batch_loop.induct)
  case (1 e w swaps i)
  show ?case
  proof (cases "int i < swaps")
    case False
    then show ?thesis by (simp add: batch_loop.simps)
  next
    case True
    obtain cs ok where it: "swap_iteration e w swaps i = (cs, ok)"
      by (cases "swap_iteration e w swaps i")
    from swap_iteration_answers [of w i e swaps] "1.prems" [of i] True it have ok by simp
    have "snd (batch_loop e w swaps (Suc i)) = Exit 0"
      using "1.IH" [OF True it [symmetric]] \<open>ok\<close> "1.prems" by simp
    then show ?thesis
      using True it \<open>ok\<close> by (simp add: batch_loop.simps [of e w swaps i] case_prod_beta)
  qed
qed

subsection \<open>The example run of the batch script\<close>

lemma parse_priority_default: "parseUnits ''0.1'' 9 = Inr 100000000"
  unfolding parseUnits_def Let_def by (simp add: is_digit_def digits_value_def)

lemma parse_extra_default: "parseUnits ''1'' 9 = Inr 1000000000"
  unfolding parseUnits_def Let_def by (simp add: is_digit_def digits_value_def)

lemma parse_amount_default: "parseUnits ''0.01'' 6 = Inr 10000"
  unfolding parseUnits_def Let_def by (simp add: is_digit_def digits_value_def)

lemma slow_env1: "slow_gas_mode env1"
  by code_simp

lemma env1_fields:
  "PRIVATE_KEY env1 = Some ''0xkey''" "TOTAL_SWAPS env1 = Some 2" "AMOUNT env1 = None"
  "PRIORITY_GWEI env1 = None" "MAXFEE_ADD_GWEI env1 = None"
  by (simp_all add: env1_def)

lemma world1_fields:
  "new_Wallet world1 = Inr ''0xme''" "usdc_allowance world1 = Resolved 0"
  "usdc_approve world1 = Resolved ''0xa0''" "approve_wait world1 = Resolved ()"
  "estimateGas world1 i = (if i = 0 then Resolved 150000 else Rejected ''reverted'')"
  "getBlock world1 i = Resolved (Some \<lparr>baseFeePerGas = Some 10000000000\<rparr>)"
  "execute world1 i = Resolved ''0xswap''" "tx_wait world1 i = Resolved ()"
  by (simp_all add: world1_def)

lemma slow_overrides_env1:
  "slow_gas_overrides env1 world1 i ov =
     ([CallGetBlock i],
      Some (ov\<lparr>maxPriorityFeePerGas := Some 100000000, maxFeePerGas := Some 11100000000\<rparr>))"
  unfolding slow_gas_overrides_def Let_def
  by (simp add: slow_env1 env1_fields world1_fields env_or_def baseFee_of_def truthy_def
        parse_priority_default parse_extra_default)

lemma iteration0_env1:
  "swap_iteration env1 world1 2 0 =
     ([CallEstimateGas 0, CallGetBlock 0,
       SendSwap 0 \<lparr>gasLimit = Some 165000, maxPriorityFeePerGas = Some 100000000,
                   maxFeePerGas = Some 11100000000\<rparr>,
       AwaitReceipt 0, Sleep], True)"
  by (simp add: swap_iteration_def swap_overrides_def gas_overrides_def slow_overrides_env1
        world1_fields sleep_between_def)

lemma iteration1_env1:
  "swap_iteration env1 world1 2 (Suc 0) =
     ([CallEstimateGas 1, CallGetBlock 1,
       SendSwap 1 \<lparr>gasLimit = Some 800000, maxPriorityFeePerGas = Some 100000000,
                   maxFeePerGas = Some 11100000000\<rparr>,
       AwaitReceipt 1], True)"
  by (simp add: swap_iteration_def swap_overrides_def gas_overrides_def slow_overrides_env1
        world1_fields sleep_between_def)

lemma batch_send_env1:
  "batch_send env1 world1 =
     ([CallAllowance, SendApprove MaxUint256, AwaitApprove,
       CallEstimateGas 0, CallGetBlock 0,
       SendSwap 0 \<lparr>gasLimit = Some 165000, maxPriorityFeePerGas = Some 100000000,
                   maxFeePerGas = Some 11100000000\<rparr>,
       AwaitReceipt 0, Sleep,
       CallEstimateGas 1, CallGetBlock 1,
       SendSwap 1 \<lparr>gasLimit = Some 800000, maxPriorityFeePerGas = Some 100000000,
                   maxFeePerGas = Some 11100000000\<rparr>,
       AwaitReceipt 1], Exit 0)"
proof -
  have loop2: "batch_loop env1 world1 2 2 = ([], Exit 0)"
    by (simp add: batch_loop.simps)
  have loop1: "batch_loop env1 world1 2 (Suc 0) = (fst (swap_iteration env1 world1 2 (Suc 0)), Exit 0)"
    using loop2 by (simp add: batch_loop.simps [of _ _ _ "Suc 0"] iteration1_env1 numeral_2_eq_2)
  have loop0: "batch_loop env1 world1 2 0 =
      (fst (swap_iteration env1 world1 2 0) @ fst (swap_iteration env1 world1 2 (Suc 0)), Exit 0)"
    using loop1 by (simp add: batch_loop.simps [of _ _ _ 0] iteration0_env1)
  show ?thesis
    by (simp add: batch_send_def env1_fields world1_fields env_or_def parse_amount_default
          approve_if_needed_def loop0 iteration0_env1 iteration1_env1)
qed





section \<open>Facts about the interactive run\<close>

lemma loop_head_ok:
  assumes "signer cfg" and "parsed_ok cfg"
  shows "loop_head cfg i s =
     (if \<not> int i < totalSwaps cfg then finish Finished s
      else if stopRequested s then finish Stopped (addLog StatusError StoppedByUser s)
      else if MAX_PENDING_TRANSACTIONS cfg \<le> length (pendingTransactions s)
      then (addLog StatusPending (Initiating i) s)\<lparr>phase := SlotWait i\<rparr>
      else (addLog StatusPending (Initiating i) s)
             \<lparr>phase := SwapAddress i, calls := calls s @ [GetAddress]\<rparr>)"
  using assms
  by (subst loop_head.simps)
     (auto simp: swap_start_def slot_check_def after_slot_def parsed_ok_def
        getPendingTransactionCount_def addLog_def Let_def split: sum.splits)

lemma finish_simps [simp]:
  "phase (finish how s) = Ended how" "pendingTransactions (finish how s) = []"
  "calls (finish how s) = calls s" "stopRequested (finish how s) = stopRequested s"
  "confirmed (finish how s) = confirmed s"
  "logs (finish how s) = (StatusPending, AllTasksFinished) # logs s"
  by (simp_all add: finish_def cleanup_def addLog_def)

lemma addLog_simps [simp]:
  "phase (addLog st m s) = phase s" "pendingTransactions (addLog st m s) = pendingTransactions s"
  "calls (addLog st m s) = calls s" "stopRequested (addLog st m s) = stopRequested s"
  "confirmed (addLog st m s) = confirmed s" "logs (addLog st m s) = (st, m) # logs s"
  by (simp_all add: addLog_def)

lemma critical_simps [simp]:
  "phase (critical err s) = Ended (Critical err)" "pendingTransactions (critical err s) = []"
  "calls (critical err s) = calls s" "stopRequested (critical err s) = stopRequested s"
  "confirmed (critical err s) = confirmed s"
  by (simp_all add: critical_def)

lemma inv_finish [simp]: "consistent cfg (finish how s)"
  by (simp add: consistent_def running_def)

lemma inv_critical [simp]: "consistent cfg (critical err s)"
  by (simp add: critical_def)

lemma inv_loop_head:
  assumes "signer cfg" and "parsed_ok cfg" and "pendingTransactions s = []"
  shows "consistent cfg (loop_head cfg i s)"
  using assms by (simp add: loop_head_ok consistent_def running_def)

lemma inv_swap_failed:
  assumes "signer cfg" and "parsed_ok cfg" and "pendingTransactions s = []"
  shows "consistent cfg (swap_failed cfg i err s)"
  using assms by (simp add: swap_failed_def Let_def inv_loop_head)

lemma inv_approved:
  assumes "signer cfg" and "parsed_ok cfg" and "pendingTransactions s = []"
  shows "consistent cfg (approved cfg s)"
  using assms by (simp add: approved_def inv_loop_head)

lemma inv_on_allowance:
  assumes "signer cfg" and "parsed_ok cfg" and "pendingTransactions s = []"
  shows "consistent cfg (on_allowance cfg a s)"
proof (cases "parseUnits (amountPerSwap cfg) 6")
  case (Inl err)
  then show ?thesis by (simp add: on_allowance_def)
next
  case (Inr amountInUnits)
  show ?thesis
  proof (cases "a \<ge> amountInUnits")
    case True
    with Inr assms show ?thesis by (simp add: on_allowance_def inv_approved)
  next
    case False
    with Inr assms show ?thesis by (simp add: on_allowance_def consistent_def running_def)
  qed
qed

lemma inv_start: "consistent cfg s \<Longrightarrow> \<not> running s \<Longrightarrow> consistent cfg (start cfg s)"
  unfolding start_def Let_def
  by (auto simp: consistent_def running_def parsed_ok_def approvals_def split: sum.splits phase.splits)

lemma inv_step: "consistent cfg s \<Longrightarrow> consistent cfg (step cfg s ev)"
proof (cases ev)
  case Start
  then show "consistent cfg s \<Longrightarrow> ?thesis" by (simp add: step_def inv_start)
next
  case StopClick
  then show "consistent cfg s \<Longrightarrow> ?thesis"
    by (auto simp: step_def consistent_def running_def split: phase.splits)
next
  case Timer
  assume i: "consistent cfg s"
  show ?thesis
  proof (cases "phase s")
    case (SlotWait k)
    with i have "signer cfg" "parsed_ok cfg" "pendingTransactions s = []"
      by (auto simp: consistent_def running_def)
    with SlotWait Timer show ?thesis
      by (auto simp: step_def slot_check_def after_slot_def parsed_ok_def consistent_def running_def
            getPendingTransactionCount_def split: sum.splits)
  next
    case (Delay k)
    with i have "signer cfg" "parsed_ok cfg" "pendingTransactions s = []"
      by (auto simp: consistent_def running_def)
    with Delay Timer show ?thesis by (simp add: step_def inv_loop_head)
  qed (use i Timer in \<open>simp_all add: step_def\<close>)
next
  case (AddressResult r)
  assume i: "consistent cfg s"
  show ?thesis
  proof (cases "phase s")
    case ApproveAddress
    with i AddressResult show ?thesis
      by (cases r) (auto simp: step_def consistent_def running_def approvals_def)
  next
    case (SwapAddress k)
    with i have "signer cfg" "parsed_ok cfg" "pendingTransactions s = []"
        "0 < MAX_PENDING_TRANSACTIONS cfg"
      by (auto simp: consistent_def running_def)
    with SwapAddress AddressResult show ?thesis
    proof (cases r)
      case (Inl err)
      with SwapAddress AddressResult \<open>signer cfg\<close> \<open>parsed_ok cfg\<close>
        \<open>pendingTransactions s = []\<close>
      show ?thesis by (simp add: step_def inv_swap_failed)
    next
      case (Inr recipient)
      with SwapAddress AddressResult \<open>signer cfg\<close> \<open>parsed_ok cfg\<close>
        \<open>pendingTransactions s = []\<close> \<open>0 < MAX_PENDING_TRANSACTIONS cfg\<close>
      show ?thesis
        by (simp add: step_def dispatch_def Let_def consistent_def running_def map_set_def)
    qed
  qed (use i AddressResult in \<open>simp_all add: step_def\<close>)
next
  case (AllowanceResult r)
  assume i: "consistent cfg s"
  show ?thesis
  proof (cases "phase s")
    case ApproveAllowance
    with i have "signer cfg" "parsed_ok cfg" "pendingTransactions s = []"
      by (auto simp: consistent_def running_def)
    with ApproveAllowance AllowanceResult show ?thesis
      by (cases r) (simp_all add: step_def inv_on_allowance)
  qed (use i AllowanceResult in \<open>simp_all add: step_def\<close>)
next
  case (ApproveResult r)
  assume i: "consistent cfg s"
  show ?thesis
  proof (cases "phase s")
    case ApproveSend
    with i ApproveResult show ?thesis
      by (cases r) (auto simp: step_def consistent_def running_def)
  qed (use i ApproveResult in \<open>simp_all add: step_def\<close>)
next
  case (ApproveReceipt r)
  assume i: "consistent cfg s"
  show ?thesis
  proof (cases "phase s")
    case ApproveWait
    with i have "signer cfg" "parsed_ok cfg" "pendingTransactions s = []"
      by (auto simp: consistent_def running_def)
    with ApproveWait ApproveReceipt show ?thesis
      by (cases r) (simp_all add: step_def inv_approved)
  qed (use i ApproveReceipt in \<open>simp_all add: step_def\<close>)
next
  case (ExecuteResult r)
  assume i: "consistent cfg s"
  show ?thesis
  proof (cases "phase s")
    case (InWallet k t)
    with i have h: "signer cfg" "parsed_ok cfg" "map_delete t (pendingTransactions s) = []"
      by (auto simp: consistent_def running_def map_delete_def)
    with InWallet ExecuteResult show ?thesis
    proof (cases r)
      case (Inl err)
      with InWallet ExecuteResult h show ?thesis
        by (simp add: step_def settled_def Let_def inv_swap_failed)
    next
      case (Inr hash)
      with InWallet ExecuteResult h show ?thesis
        by (simp add: step_def settled_def Let_def consistent_def running_def)
    qed
  qed (use i ExecuteResult in \<open>simp_all add: step_def\<close>)
next
  case (ChainConfirms h)
  then show "consistent cfg s \<Longrightarrow> ?thesis"
    by (auto simp: step_def consistent_def running_def split: phase.splits)
next
  case Unmount
  then show "consistent cfg s \<Longrightarrow> ?thesis"
    by (auto simp: step_def cleanup_def consistent_def running_def split: phase.splits)
qed

lemma inv_initial: "consistent cfg initial"
  by (simp add: consistent_def initial_def running_def)

lemma inv_foldl: "consistent cfg s \<Longrightarrow> consistent cfg (foldl (step cfg) s evs)"
  by (induction evs arbitrary: s) (simp_all add: inv_step)

lemma inv_run: "consistent cfg (run cfg evs)"
  by (simp add: run_def inv_foldl inv_initial)

lemma run_snoc: "run cfg (evs @ [ev]) = step cfg (run cfg evs) ev"
  by (simp add: run_def)

lemma loop_head_fields:
  assumes "signer cfg" and "parsed_ok cfg"
  shows "phase (loop_head cfg i s) =
           (if \<not> int i < totalSwaps cfg then Ended Finished
            else if stopRequested s then Ended Stopped
            else if MAX_PENDING_TRANSACTIONS cfg \<le> length (pendingTransactions s)
            then SlotWait i else SwapAddress i)"
    and "pendingTransactions (loop_head cfg i s) =
           (if int i < totalSwaps cfg \<and> \<not> stopRequested s then pendingTransactions s else [])"
    and "calls (loop_head cfg i s) =
           (if int i < totalSwaps cfg \<and> \<not> stopRequested s
               \<and> \<not> MAX_PENDING_TRANSACTIONS cfg \<le> length (pendingTransactions s)
            then calls s @ [GetAddress] else calls s)"
    and "stopRequested (loop_head cfg i s) = stopRequested s"
    and "confirmed (loop_head cfg i s) = confirmed s"
  using assms by (simp_all add: loop_head_ok)

lemma swap_failed_fields:
  assumes "signer cfg" and "parsed_ok cfg"
  shows "phase (swap_failed cfg i err s) =
           (if isUserRejection err then Ended Stopped
            else if \<not> int (Suc i) < totalSwaps cfg then Ended Finished
            else if stopRequested s then Ended Stopped
            else if MAX_PENDING_TRANSACTIONS cfg \<le> length (pendingTransactions s)
            then SlotWait (Suc i) else SwapAddress (Suc i))"
    and "pendingTransactions (swap_failed cfg i err s) =
           (if \<not> isUserRejection err \<and> int (Suc i) < totalSwaps cfg \<and> \<not> stopRequested s
            then pendingTransactions s else [])"
    and "calls (swap_failed cfg i err s) =
           (if \<not> isUserRejection err \<and> int (Suc i) < totalSwaps cfg \<and> \<not> stopRequested s
               \<and> \<not> MAX_PENDING_TRANSACTIONS cfg \<le> length (pendingTransactions s)
            then calls s @ [GetAddress] else calls s)"
    and "stopRequested (swap_failed cfg i err s) = stopRequested s"
    and "confirmed (swap_failed cfg i err s) = confirmed s"
  using assms by (simp_all add: swap_failed_def Let_def loop_head_fields)

lemma swap_failed_logged:
  assumes "signer cfg" and "parsed_ok cfg"
  shows "(StatusError, Failed i err) \<in> set (logs (swap_failed cfg i err s))"
  using assms by (simp add: swap_failed_def Let_def loop_head_ok)

lemma inv_running:
  "consistent cfg s \<Longrightarrow> running s \<Longrightarrow> signer cfg \<and> parsed_ok cfg"
  by (simp add: consistent_def)

lemma inv_pending:
  "consistent cfg s \<Longrightarrow>
     pendingTransactions s = [] \<or> (\<exists>i. phase s = InWallet i (txIds cfg i)
        \<and> pendingTransactions s = [txIds cfg i] \<and> 0 < MAX_PENDING_TRANSACTIONS cfg)"
  by (auto simp: consistent_def split: phase.splits)

lemma inv_SwapAddress:
  "consistent cfg s \<Longrightarrow> phase s = SwapAddress i \<Longrightarrow>
     signer cfg \<and> parsed_ok cfg \<and> pendingTransactions s = [] \<and> 0 < MAX_PENDING_TRANSACTIONS cfg"
  by (simp add: consistent_def running_def)

lemma inv_InWallet:
  "consistent cfg s \<Longrightarrow> phase s = InWallet i t \<Longrightarrow>
     signer cfg \<and> parsed_ok cfg \<and> t = txIds cfg i \<and> 0 < MAX_PENDING_TRANSACTIONS cfg
     \<and> map_delete t (pendingTransactions s) = []"
  by (auto simp: consistent_def running_def map_delete_def)

text \<open>The only step that puts an entry into the map.\<close>

lemma step_adds:
  assumes "consistent cfg s" and "t \<notin> set (pendingTransactions s)"
    and "t \<in> set (pendingTransactions (step cfg s ev))"
  shows "\<exists>i a. phase s = SwapAddress i \<and> ev = AddressResult (Inr a) \<and> t = txIds cfg i
           \<and> step cfg s ev = dispatch cfg i s"
proof -
  from inv_step [OF assms(1), of ev] have i': "consistent cfg (step cfg s ev)" .
  from inv_pending [OF i'] assms(3) obtain k where
    ph': "phase (step cfg s ev) = InWallet k (txIds cfg k)" and t: "t = txIds cfg k"
    by auto
  show ?thesis
  proof (cases ev)
    case Start
    with ph' assms show ?thesis
      by (auto simp: step_def start_def Let_def split: if_splits sum.splits)
  next
    case StopClick
    with assms show ?thesis by (auto simp: step_def split: if_splits)
  next
    case Timer
    show ?thesis
    proof (cases "phase s")
      case (SlotWait j)
      with assms(1) have "signer cfg" "parsed_ok cfg" by (auto simp: consistent_def running_def)
      with SlotWait Timer ph' show ?thesis
        by (auto simp: step_def slot_check_def after_slot_def swap_failed_fields
              split: sum.splits if_splits)
    next
      case (Delay j)
      with assms(1) have "signer cfg" "parsed_ok cfg" by (auto simp: consistent_def running_def)
      with Delay Timer ph' show ?thesis
        by (auto simp: step_def loop_head_fields split: if_splits)
    qed (use Timer assms in \<open>auto simp: step_def\<close>)
  next
    case (AddressResult r)
    show ?thesis
    proof (cases "phase s")
      case ApproveAddress
      with AddressResult ph' show ?thesis by (cases r) (auto simp: step_def)
    next
      case (SwapAddress j)
      from inv_SwapAddress [OF assms(1) SwapAddress]
      have h: "signer cfg" "parsed_ok cfg" by auto
      show ?thesis
      proof (cases r)
        case (Inl err)
        with SwapAddress AddressResult ph' h show ?thesis
          by (auto simp: step_def swap_failed_fields split: if_splits)
      next
        case (Inr a)
        with SwapAddress AddressResult ph' t show ?thesis
          by (auto simp: step_def dispatch_def Let_def)
      qed
    qed (use AddressResult assms in \<open>auto simp: step_def\<close>)
  next
    case (AllowanceResult r)
    show ?thesis
    proof (cases "phase s")
      case ApproveAllowance
      with assms(1) have "signer cfg" "parsed_ok cfg" by (auto simp: consistent_def running_def)
      with ApproveAllowance AllowanceResult ph' show ?thesis
        by (cases r)
           (auto simp: step_def on_allowance_def approved_def loop_head_fields
              split: sum.splits if_splits)
    qed (use AllowanceResult assms in \<open>auto simp: step_def\<close>)
  next
    case (ApproveResult r)
    show ?thesis
    proof (cases "phase s")
      case ApproveSend
      with ApproveResult ph' show ?thesis by (cases r) (auto simp: step_def)
    qed (use ApproveResult assms in \<open>auto simp: step_def\<close>)
  next
    case (ApproveReceipt r)
    show ?thesis
    proof (cases "phase s")
      case ApproveWait
      with assms(1) have "signer cfg" "parsed_ok cfg" by (auto simp: consistent_def running_def)
      with ApproveWait ApproveReceipt ph' show ?thesis
        by (cases r) (auto simp: step_def approved_def loop_head_fields split: if_splits)
    qed (use ApproveReceipt assms in \<open>auto simp: step_def\<close>)
  next
    case (ExecuteResult r)
    show ?thesis
    proof (cases "phase s")
      case (InWallet j u)
      from inv_InWallet [OF assms(1) InWallet] have "signer cfg" "parsed_ok cfg" by auto
      with InWallet ExecuteResult ph' show ?thesis
        by (cases r) (auto simp: step_def settled_def Let_def swap_failed_fields split: if_splits)
    qed (use ExecuteResult assms in \<open>auto simp: step_def\<close>)
  next
    case (ChainConfirms h)
    with assms show ?thesis by (auto simp: step_def)
  next
    case Unmount
    with assms show ?thesis by (auto simp: step_def cleanup_def)
  qed
qed


lemma step_not_running:
  "\<not> running s \<Longrightarrow> ev \<noteq> Start \<Longrightarrow>
     phase (step cfg s ev) = phase s \<and> calls (step cfg s ev) = calls s"
  by (cases ev) (auto simp: step_def running_def cleanup_def split: phase.splits)

lemma ended_stays:
  "phase s = Ended how \<Longrightarrow> Start \<notin> set evs \<Longrightarrow>
     phase (foldl (step cfg) s evs) = Ended how \<and> calls (foldl (step cfg) s evs) = calls s"
proof (induction evs arbitrary: s)
  case Nil
  then show ?case by simp
next
  case (Cons ev evs)
  from Cons.prems have nr: "\<not> running s" and ne: "ev \<noteq> Start"
    by (auto simp: running_def)
  from step_not_running [OF nr ne, of cfg] Cons.prems
  have "phase (step cfg s ev) = Ended how" "calls (step cfg s ev) = calls s" by auto
  with Cons.IH [of "step cfg s ev"] Cons.prems show ?case by simp
qed


lemma approvals_simps [simp]:
  "approvals [] = []" "approvals (xs @ ys) = approvals xs @ approvals ys"
  "approvals (c # cs) = (if is_approve c then c # approvals cs else approvals cs)"
  by (simp_all add: approvals_def)

lemma dispatched_simps [simp]:
  "dispatched [] = []" "dispatched (xs @ ys) = dispatched xs @ dispatched ys"
  "dispatched (c # cs) =
     (case execute_index c of None \<Rightarrow> dispatched cs | Some i \<Rightarrow> i # dispatched cs)"
  by (simp_all add: dispatched_def map_filter_def split: option.splits)

lemma past_approval_step:
  assumes "consistent cfg s" and "past_approval s" and "ev \<noteq> Start"
  shows "past_approval (step cfg s ev)
       \<and> approvals (calls (step cfg s ev)) = approvals (calls s)"
proof (cases "running s")
  case False
  from step_not_running [OF False assms(3), of cfg] assms(2)
  show ?thesis by (simp add: past_approval_def)
next
  case True
  with assms(1) have h: "signer cfg" "parsed_ok cfg" by (auto dest: inv_running)
  show ?thesis
  proof (cases ev)
    case (AddressResult r)
    with assms h show ?thesis
      by (cases r; cases "phase s")
         (auto simp: step_def past_approval_def swap_failed_fields dispatch_def Let_def)
  next
    case (ExecuteResult r)
    with assms h show ?thesis
      by (cases r; cases "phase s")
         (auto simp: step_def past_approval_def swap_failed_fields settled_def Let_def)
  next
    case Timer
    with assms h show ?thesis
      by (cases "phase s")
         (auto simp: step_def past_approval_def loop_head_fields slot_check_def after_slot_def
            parsed_ok_def split: sum.splits)
  qed (use assms in \<open>auto simp: step_def past_approval_def cleanup_def split: phase.splits\<close>)
qed

lemma past_approval_foldl:
  "consistent cfg s \<Longrightarrow> past_approval s \<Longrightarrow> Start \<notin> set evs \<Longrightarrow>
     approvals (calls (foldl (step cfg) s evs)) = approvals (calls s)"
proof (induction evs arbitrary: s)
  case Nil
  then show ?case by simp
next
  case (Cons ev evs)
  from Cons.prems have ne: "ev \<noteq> Start" by auto
  from past_approval_step [OF Cons.prems(1,2) ne]
  have "past_approval (step cfg s ev)"
    and "approvals (calls (step cfg s ev)) = approvals (calls s)" by auto
  with Cons.IH [of "step cfg s ev"] Cons.prems inv_step [OF Cons.prems(1), of ev]
  show ?case by simp
qed




subsection \<open>Example runs of the interactive service\<close>

lemma cfg2_fields:
  "signer cfg2" "parsed_ok cfg2" "wallet_address cfg2 = Some ''0xme''" "totalSwaps cfg2 = 2"
  "MAX_PENDING_TRANSACTIONS cfg2 = 1" "parseUnits (amountPerSwap cfg2) 6 = Inr 10000"
  "txIds cfg2 0 = ''k3x9q0a1z''" "txIds cfg2 (Suc 0) = ''p7m2c5d8e''"
  by (simp_all add: cfg2_def parsed_ok_def parse_amount_default)

lemma cfg10_fields:
  "signer cfg10" "parsed_ok cfg10" "wallet_address cfg10 = Some ''0xme''" "totalSwaps cfg10 = 10"
  "MAX_PENDING_TRANSACTIONS cfg10 = 1" "parseUnits (amountPerSwap cfg10) 6 = Inr 10000"
  "txIds cfg10 0 = ''k3x9q0a1z''"
  by (simp_all add: cfg10_def cfg2_def parsed_ok_def parse_amount_default)

text \<open>A run whose allowance suffices for one swap comes to the first swap without approval.\<close>

lemma run_first_swap:
  assumes "signer cfg" and "parseUnits (amountPerSwap cfg) 6 = Inr amt"
    and "wallet_address cfg = Some me" and "amt \<le> al" and "0 < totalSwaps cfg"
    and "0 < MAX_PENDING_TRANSACTIONS cfg"
  shows "run cfg [Start, AddressResult (Inr a), AllowanceResult (Inr al)] =
     \<lparr>phase = SwapAddress 0, pendingTransactions = [], stopRequested = False,
       logs = [(StatusPending, Initiating 0), (StatusSuccess, Approved),
               (StatusPending, CheckingAllowance), (StatusPending, Starting)],
       calls = [GetAddress, QueryAllowance, GetAddress], confirmed = []\<rparr>"
proof -
  from assms have ok: "parsed_ok cfg" by (simp add: parsed_ok_def)
  have 1: "run cfg [Start] =
     \<lparr>phase = ApproveAddress, pendingTransactions = [], stopRequested = False,
       logs = [(StatusPending, CheckingAllowance), (StatusPending, Starting)],
       calls = [GetAddress], confirmed = []\<rparr>"
    using assms
    by (simp add: run_def step_def running_def initial_def start_def Let_def addLog_def)
  have 2: "run cfg [Start, AddressResult (Inr a)] =
     \<lparr>phase = ApproveAllowance, pendingTransactions = [], stopRequested = False,
       logs = [(StatusPending, CheckingAllowance), (StatusPending, Starting)],
       calls = [GetAddress, QueryAllowance], confirmed = []\<rparr>"
    using run_snoc [of cfg "[Start]" "AddressResult (Inr a)"]
    by (simp add: 1 step_def)
  show ?thesis
    using run_snoc [of cfg "[Start, AddressResult (Inr a)]" "AllowanceResult (Inr al)"] assms
    by (simp add: 2 step_def on_allowance_def approved_def loop_head_ok ok addLog_def)
qed

lemma run_in_wallet:
  assumes "signer cfg" and "parseUnits (amountPerSwap cfg) 6 = Inr amt"
    and "wallet_address cfg = Some me" and "amt \<le> al" and "0 < totalSwaps cfg"
    and "0 < MAX_PENDING_TRANSACTIONS cfg"
  shows "run cfg [Start, AddressResult (Inr a), AllowanceResult (Inr al), AddressResult (Inr a)] =
     \<lparr>phase = InWallet 0 (txIds cfg 0), pendingTransactions = [txIds cfg 0],
       stopRequested = False,
       logs = [(StatusPending, Initiating 0), (StatusSuccess, Approved),
               (StatusPending, CheckingAllowance), (StatusPending, Starting)],
       calls = [GetAddress, QueryAllowance, GetAddress, RouterExecute 0], confirmed = []\<rparr>"
  using run_snoc [of cfg "[Start, AddressResult (Inr a), AllowanceResult (Inr al)]"
      "AddressResult (Inr a)"]
  by (simp add: run_first_swap [OF assms] step_def dispatch_def Let_def map_set_def)



lemma rejection_messages:
  "isUserRejection ''user rejected action''" "\<not> isUserRejection ''insufficient funds''"
  by code_simp+

lemma run_allowance_asked:
  assumes "signer cfg" and "parseUnits (amountPerSwap cfg) 6 = Inr amt"
    and "wallet_address cfg = Some me"
  shows "run cfg [Start, AddressResult (Inr a)] =
     \<lparr>phase = ApproveAllowance, pendingTransactions = [], stopRequested = False,
       logs = [(StatusPending, CheckingAllowance), (StatusPending, Starting)],
       calls = [GetAddress, QueryAllowance], confirmed = []\<rparr>"
  using assms
  by (simp add: run_def step_def running_def initial_def start_def Let_def addLog_def)


section \<open>The gas limit of a swap\<close>



section \<open>The fees of slow gas mode\<close>




section \<open>The exit code of the batch script\<close>

text \<open>
  C6. The batch script exits with code 1, before any call to the network, when the signing key
  is missing, and with code 1 when the approval step fails (the allowance cannot be read, the
  number of swaps is not a number, the approval is rejected or its confirmation fails). When the
  approval step succeeds and every call of the loop is answered, it exits with code 0, however
  many swaps are rejected.
\<close>

theorem batch_exit_codes:
  "(env_or (PRIVATE_KEY e) [] = [] \<longrightarrow> batch_send e w = ([], Exit 1))
   \<and> (env_or (PRIVATE_KEY e) [] \<noteq> [] \<and> new_Wallet w = Inr a
        \<and> parseUnits (env_or (AMOUNT e) ''0.01'') 6 = Inr amt
        \<and> (usdc_allowance w = Rejected err
            \<or> usdc_allowance w = Resolved al \<and> TOTAL_SWAPS e = None
            \<or> usdc_allowance w = Resolved al \<and> TOTAL_SWAPS e = Some n \<and> al < amt * n
               \<and> (usdc_approve w = Rejected err
                   \<or> usdc_approve w = Resolved tx \<and> approve_wait w = Rejected err))
      \<longrightarrow> snd (batch_send e w) = Exit 1)
   \<and> (env_or (PRIVATE_KEY e) [] \<noteq> [] \<and> new_Wallet w = Inr a
        \<and> parseUnits (env_or (AMOUNT e) ''0.01'') 6 = Inr amt
        \<and> usdc_allowance w = Resolved al \<and> TOTAL_SWAPS e = Some n
        \<and> (amt * n \<le> al \<or> usdc_approve w = Resolved tx \<and> approve_wait w = Resolved ())
        \<and> (\<forall>i. int i < n \<longrightarrow> answers w i)
      \<longrightarrow> snd (batch_send e w) = Exit 0)"
proof (intro conjI impI)
  assume "env_or (PRIVATE_KEY e) [] = []"
  then show "batch_send e w = ([], Exit 1)" by (simp add: batch_send_def)
next
  assume "env_or (PRIVATE_KEY e) [] \<noteq> [] \<and> new_Wallet w = Inr a
        \<and> parseUnits (env_or (AMOUNT e) ''0.01'') 6 = Inr amt
        \<and> (usdc_allowance w = Rejected err
            \<or> usdc_allowance w = Resolved al \<and> TOTAL_SWAPS e = None
            \<or> usdc_allowance w = Resolved al \<and> TOTAL_SWAPS e = Some n \<and> al < amt * n
               \<and> (usdc_approve w = Rejected err
                   \<or> usdc_approve w = Resolved tx \<and> approve_wait w = Rejected err))"
  then show "snd (batch_send e w) = Exit 1"
    by (auto simp: batch_send_def approve_if_needed_def)
next
  assume h: "env_or (PRIVATE_KEY e) [] \<noteq> [] \<and> new_Wallet w = Inr a
        \<and> parseUnits (env_or (AMOUNT e) ''0.01'') 6 = Inr amt
        \<and> usdc_allowance w = Resolved al \<and> TOTAL_SWAPS e = Some n
        \<and> (amt * n \<le> al \<or> usdc_approve w = Resolved tx \<and> approve_wait w = Resolved ())
        \<and> (\<forall>i. int i < n \<longrightarrow> answers w i)"
  then have "snd (approve_if_needed e w amt) = ApprovalDone"
    by (auto simp: approve_if_needed_def)
  then obtain cs where "approve_if_needed e w amt = (cs, ApprovalDone)"
    by (cases "approve_if_needed e w amt") auto
  with h have "batch_send e w = (cs @ fst (batch_loop e w n 0), snd (batch_loop e w n 0))"
    using batch_send_done [of e w a amt cs n] by simp
  moreover from h have "snd (batch_loop e w n 0) = Exit 0"
    by (intro batch_loop_exit_bounded) simp
  ultimately show "snd (batch_send e w) = Exit 0" by simp
qed

theorem batch_exit_codes_witness:
  "env_or (PRIVATE_KEY env_no_key) [] = [] \<and> batch_send env_no_key world1 = ([], Exit 1)
   \<and> usdc_allowance world_rejected_approval = Resolved 0
   \<and> usdc_approve world_rejected_approval = Rejected ''insufficient funds for gas''
   \<and> snd (batch_send env1 world_rejected_approval) = Exit 1
   \<and> execute world_failing_swaps 0 = Rejected ''nonce too low''
   \<and> execute world_failing_swaps 1 = Rejected ''nonce too low''
   \<and> snd (batch_send env1 world_failing_swaps) = Exit 0"
proof -
  have k: "env_or (PRIVATE_KEY env_no_key) [] = []"
    by (simp add: env_no_key_def env1_def env_or_def)
  have k1: "env_or (PRIVATE_KEY env1) [] \<noteq> []"
    by (simp add: env1_fields env_or_def)
  have am: "parseUnits (env_or (AMOUNT env1) ''0.01'') 6 = Inr 10000"
    by (simp add: env1_fields env_or_def parse_amount_default)
  have r: "new_Wallet world_rejected_approval = Inr ''0xme''"
      "usdc_allowance world_rejected_approval = Resolved 0"
      "usdc_approve world_rejected_approval = Rejected ''insufficient funds for gas''"
    by (simp_all add: world_rejected_approval_def world1_def)
  have f: "new_Wallet world_failing_swaps = Inr ''0xme''"
      "usdc_allowance world_failing_swaps = Resolved 0"
      "usdc_approve world_failing_swaps = Resolved ''0xa0''"
      "approve_wait world_failing_swaps = Resolved ()"
      "\<And>i. execute world_failing_swaps i = Rejected ''nonce too low''"
      "\<And>i. answers world_failing_swaps i"
    by (simp_all add: world_failing_swaps_def world1_def answers_def)
  have 1: "batch_send env_no_key world1 = ([], Exit 1)"
    using batch_exit_codes [where e = env_no_key and w = world1] k by blast
  have 2: "snd (batch_send env1 world_rejected_approval) = Exit 1"
    using batch_exit_codes [where e = env1 and w = world_rejected_approval and a = "''0xme''"
        and amt = 10000 and al = 0 and n = 2 and err = "''insufficient funds for gas''"]
      k1 am r env1_fields by simp
  have 3: "snd (batch_send env1 world_failing_swaps) = Exit 0"
    using batch_exit_codes [where e = env1 and w = world_failing_swaps and a = "''0xme''"
        and amt = 10000 and al = 0 and n = 2 and tx = "''0xa0''"]
      k1 am f env1_fields by simp
  from k 1 2 3 r f show ?thesis by simp
qed

section \<open>The pending map stays within its capacity\<close>

text \<open>
  C1. In every run of the interactive service, after every step the number of entries of
  \<^verbatim>\<open>pendingTransactions\<close> is at most \<^verbatim>\<open>MAX_PENDING_TRANSACTIONS\<close>. A swap that is past
  \<^verbatim>\<open>waitForTransactionSlot\<close> counts fewer entries than the capacity, and an entry is added
  only by such a swap.
\<close>

theorem pending_within_capacity:
  "length (pendingTransactions (run cfg evs)) \<le> MAX_PENDING_TRANSACTIONS cfg
   \<and> (\<forall>i. phase (run cfg evs) = SwapAddress i
          \<longrightarrow> getPendingTransactionCount (run cfg evs) < MAX_PENDING_TRANSACTIONS cfg)
   \<and> (length (pendingTransactions (run cfg evs))
         < length (pendingTransactions (run cfg (evs @ [ev])))
       \<longrightarrow> (\<exists>i. phase (run cfg evs) = SwapAddress i)
           \<and> getPendingTransactionCount (run cfg evs) < MAX_PENDING_TRANSACTIONS cfg)"
proof -
  have i: "consistent cfg (run cfg evs)" by (rule inv_run)
  have a: "length (pendingTransactions (run cfg evs)) \<le> MAX_PENDING_TRANSACTIONS cfg"
    using inv_pending [OF i] by auto
  have b: "getPendingTransactionCount (run cfg evs) < MAX_PENDING_TRANSACTIONS cfg"
    if "phase (run cfg evs) = SwapAddress k" for k
    using inv_SwapAddress [OF i that] by (simp add: getPendingTransactionCount_def)
  have c: "\<exists>k. phase (run cfg evs) = SwapAddress k"
    if g: "length (pendingTransactions (run cfg evs))
            < length (pendingTransactions (run cfg (evs @ [ev])))"
  proof -
    have i': "consistent cfg (run cfg (evs @ [ev]))" by (rule inv_run)
    from g inv_pending [OF i'] obtain j where
      p': "pendingTransactions (run cfg (evs @ [ev])) = [txIds cfg j]"
      by auto
    with g have "pendingTransactions (run cfg evs) = []" by simp
    with p' have "txIds cfg j \<notin> set (pendingTransactions (run cfg evs))"
      and "txIds cfg j \<in> set (pendingTransactions (step cfg (run cfg evs) ev))"
      by (simp_all add: run_snoc)
    from step_adds [OF i this] show ?thesis by auto
  qed
  from a b c show ?thesis by blast
qed

theorem pending_within_capacity_witness:
  "phase (run cfg2 [Start, AddressResult (Inr ''0xme''), AllowanceResult (Inr 20000)])
     = SwapAddress 0
   \<and> getPendingTransactionCount
        (run cfg2 [Start, AddressResult (Inr ''0xme''), AllowanceResult (Inr 20000)])
       < MAX_PENDING_TRANSACTIONS cfg2
   \<and> length (pendingTransactions
        (run cfg2 [Start, AddressResult (Inr ''0xme''), AllowanceResult (Inr 20000)]))
       < length (pendingTransactions
          (run cfg2 ([Start, AddressResult (Inr ''0xme''), AllowanceResult (Inr 20000)]
                     @ [AddressResult (Inr ''0xme'')])))
   \<and> length (pendingTransactions
        (run cfg2 ([Start, AddressResult (Inr ''0xme''), AllowanceResult (Inr 20000)]
                   @ [AddressResult (Inr ''0xme'')])))
       \<le> MAX_PENDING_TRANSACTIONS cfg2"
proof -
  let ?evs = "[Start, AddressResult (Inr ''0xme''), AllowanceResult (Inr 20000)]"
  have a: "run cfg2 ?evs =
     \<lparr>phase = SwapAddress 0, pendingTransactions = [], stopRequested = False,
       logs = [(StatusPending, Initiating 0), (StatusSuccess, Approved),
               (StatusPending, CheckingAllowance), (StatusPending, Starting)],
       calls = [GetAddress, QueryAllowance, GetAddress], confirmed = []\<rparr>"
    by (rule run_first_swap [of cfg2 10000 "''0xme''" 20000]) (simp_all add: cfg2_fields)
  have b: "pendingTransactions (run cfg2 (?evs @ [AddressResult (Inr ''0xme'')]))
             = [''k3x9q0a1z'']"
    using run_in_wallet [of cfg2 10000 "''0xme''" 20000 "''0xme''"]
    by (simp add: cfg2_fields)
  have c: "length (pendingTransactions (run cfg2 ?evs))
             < length (pendingTransactions (run cfg2 (?evs @ [AddressResult (Inr ''0xme'')])))"
    by (simp only: a b) simp
  have d: "phase (run cfg2 ?evs) = SwapAddress 0"
    by (simp add: a)
  from pending_within_capacity [of cfg2 ?evs "AddressResult (Inr ''0xme'')"] c
  have "getPendingTransactionCount (run cfg2 ?evs) < MAX_PENDING_TRANSACTIONS cfg2"
    by blast
  moreover
  from pending_within_capacity [of cfg2 "?evs @ [AddressResult (Inr ''0xme'')]" Timer]
  have "length (pendingTransactions (run cfg2 (?evs @ [AddressResult (Inr ''0xme'')])))
          \<le> MAX_PENDING_TRANSACTIONS cfg2"
    by blast
  ultimately show ?thesis using c d by blast
qed

section \<open>A rejection by the user stops the loop\<close>

text \<open>
  C4. When swap \<open>i\<close> of the interactive loop fails, the failure is logged. If the message is
  classified as a rejection by the user (in lower case it contains \<^verbatim>\<open>user rejected\<close> or
  \<^verbatim>\<open>4001\<close>), the run ends as stopped and no further swap is dispatched, whatever happens
  afterwards; otherwise the loop goes on with index \<open>i + 1\<close>: it starts that swap, or ends
  because the count is exhausted or a stop was requested.
\<close>

theorem user_rejection_stops_the_loop:
  assumes "phase (run cfg evs) = InWallet i t \<and> ev = ExecuteResult (Inl err)
         \<or> phase (run cfg evs) = SwapAddress i \<and> ev = AddressResult (Inl err)"
  shows "(StatusError, Failed i err) \<in> set (logs (run cfg (evs @ [ev])))
       \<and> (isUserRejection err \<longrightarrow>
            phase (run cfg (evs @ [ev])) = Ended Stopped
            \<and> (\<forall>evs'. Start \<notin> set evs' \<longrightarrow>
                  phase (run cfg (evs @ ev # evs')) = Ended Stopped
                  \<and> dispatched (calls (run cfg (evs @ ev # evs')))
                      = dispatched (calls (run cfg evs))))
       \<and> (\<not> isUserRejection err \<longrightarrow>
            phase (run cfg (evs @ [ev])) =
              (if \<not> int (Suc i) < totalSwaps cfg then Ended Finished
               else if stopRequested (run cfg evs) then Ended Stopped
               else SwapAddress (Suc i)))"
proof -
  let ?s = "run cfg evs"
  have i: "consistent cfg ?s" by (rule inv_run)
  define s1 where "s1 = (if ev = ExecuteResult (Inl err)
     then ?s\<lparr>pendingTransactions := map_delete t (pendingTransactions ?s)\<rparr> else ?s)"
  from assms i have h: "signer cfg" "parsed_ok cfg" "0 < MAX_PENDING_TRANSACTIONS cfg"
    and p1: "pendingTransactions s1 = []"
    and st: "stopRequested s1 = stopRequested ?s" and cl: "calls s1 = calls ?s"
    using inv_InWallet [OF i, of i t] inv_SwapAddress [OF i, of i]
    by (auto simp: s1_def)
  from assms have eq: "run cfg (evs @ [ev]) = swap_failed cfg i err s1"
    by (auto simp: run_snoc step_def settled_def Let_def s1_def)
  have lg: "(StatusError, Failed i err) \<in> set (logs (run cfg (evs @ [ev])))"
    unfolding eq using h by (simp add: swap_failed_logged)
  have rej: "phase (run cfg (evs @ ev # evs')) = Ended Stopped
            \<and> dispatched (calls (run cfg (evs @ ev # evs'))) = dispatched (calls ?s)"
    if r: "isUserRejection err" and ns: "Start \<notin> set evs'" for evs'
  proof -
    from r h have ph: "phase (run cfg (evs @ [ev])) = Ended Stopped"
      and c: "calls (run cfg (evs @ [ev])) = calls ?s"
      unfolding eq by (simp_all add: swap_failed_fields cl)
    have "run cfg (evs @ ev # evs') = foldl (step cfg) (run cfg (evs @ [ev])) evs'"
      by (simp add: run_def)
    with ended_stays [OF ph ns, of cfg] c show ?thesis by simp
  qed
  have cont: "phase (run cfg (evs @ [ev])) =
              (if \<not> int (Suc i) < totalSwaps cfg then Ended Finished
               else if stopRequested ?s then Ended Stopped
               else SwapAddress (Suc i))"
    if "\<not> isUserRejection err"
    unfolding eq using that h p1 st by (simp add: swap_failed_fields)
  from lg rej [of "[]"] rej cont show ?thesis by simp
qed

theorem user_rejection_stops_the_loop_witness:
  "phase (run cfg2 [Start, AddressResult (Inr ''0xme''), AllowanceResult (Inr 20000),
                    AddressResult (Inr ''0xme'')]) = InWallet 0 ''k3x9q0a1z''
   \<and> isUserRejection ''user rejected action''
   \<and> phase (run cfg2 ([Start, AddressResult (Inr ''0xme''), AllowanceResult (Inr 20000),
                        AddressResult (Inr ''0xme'')]
                       @ [ExecuteResult (Inl ''user rejected action'')])) = Ended Stopped
   \<and> dispatched (calls (run cfg2 ([Start, AddressResult (Inr ''0xme''),
                        AllowanceResult (Inr 20000), AddressResult (Inr ''0xme'')]
                       @ ExecuteResult (Inl ''user rejected action'')
                         # [Timer, AddressResult (Inr ''0xme'')]))) = [0]
   \<and> \<not> isUserRejection ''insufficient funds''
   \<and> phase (run cfg2 ([Start, AddressResult (Inr ''0xme''), AllowanceResult (Inr 20000),
                        AddressResult (Inr ''0xme'')]
                       @ [ExecuteResult (Inl ''insufficient funds'')])) = SwapAddress 1"
proof -
  let ?evs = "[Start, AddressResult (Inr ''0xme''), AllowanceResult (Inr 20000),
               AddressResult (Inr ''0xme'')]"
  have w: "run cfg2 ?evs =
     \<lparr>phase = InWallet 0 (txIds cfg2 0), pendingTransactions = [txIds cfg2 0],
       stopRequested = False,
       logs = [(StatusPending, Initiating 0), (StatusSuccess, Approved),
               (StatusPending, CheckingAllowance), (StatusPending, Starting)],
       calls = [GetAddress, QueryAllowance, GetAddress, RouterExecute 0], confirmed = []\<rparr>"
    by (rule run_in_wallet [of cfg2 10000 "''0xme''" 20000]) (simp_all add: cfg2_fields)
  then have ph: "phase (run cfg2 ?evs) = InWallet 0 ''k3x9q0a1z''"
    and st: "\<not> stopRequested (run cfg2 ?evs)"
    and d: "dispatched (calls (run cfg2 ?evs)) = [0]"
    by (simp_all add: cfg2_fields)
  have ns: "Start \<notin> set [Timer, AddressResult (Inr ''0xme'')]" by simp
  from user_rejection_stops_the_loop
         [of cfg2 ?evs 0 "''k3x9q0a1z''" "ExecuteResult (Inl ''user rejected action'')"
             "''user rejected action''"]
       user_rejection_stops_the_loop
         [of cfg2 ?evs 0 "''k3x9q0a1z''" "ExecuteResult (Inl ''insufficient funds'')"
             "''insufficient funds''"]
       ph st d ns rejection_messages
  show ?thesis by (simp add: cfg2_fields)
qed

section \<open>The allowance check of the two programs\<close>

text \<open>
  C5. The allowance is to be compared with the amount of all swaps of the run. The batch
  script does so; \<^verbatim>\<open>approveUSDC\<close> of the interactive service compares it with the amount of
  one swap. With ten swaps of 0.01 USDC and an allowance of 0.01 USDC the interactive run
  issues no approval and starts the first swap, where the batch script approves.
\<close>

theorem interactive_allowance_shortfall:
  "parseUnits (amountPerSwap cfg10) 6 = Inr 10000 \<and> totalSwaps cfg10 = 10
   \<and> approvals (calls (run cfg10 [Start, AddressResult (Inr ''0xme''),
                                   AllowanceResult (Inr 10000)])) = []
   \<and> phase (run cfg10 [Start, AddressResult (Inr ''0xme''),
                        AllowanceResult (Inr 10000)]) = SwapAddress 0
   \<and> parseUnits (env_or (AMOUNT env10) ''0.01'') 6 = Inr 10000
   \<and> TOTAL_SWAPS env10 = Some 10 \<and> usdc_allowance world10 = Resolved 10000
   \<and> approve_if_needed env10 world10 10000
       = ([CallAllowance, SendApprove MaxUint256, AwaitApprove], ApprovalDone)"
proof -
  have "run cfg10 [Start, AddressResult (Inr ''0xme''), AllowanceResult (Inr 10000)] =
     \<lparr>phase = SwapAddress 0, pendingTransactions = [], stopRequested = False,
       logs = [(StatusPending, Initiating 0), (StatusSuccess, Approved),
               (StatusPending, CheckingAllowance), (StatusPending, Starting)],
       calls = [GetAddress, QueryAllowance, GetAddress], confirmed = []\<rparr>"
    by (rule run_first_swap [of cfg10 10000 "''0xme''" 10000]) (simp_all add: cfg10_fields)
  moreover have "approve_if_needed env10 world10 10000
       = ([CallAllowance, SendApprove MaxUint256, AwaitApprove], ApprovalDone)"
    by (simp add: approve_if_needed_def env10_def env1_def world10_def world1_def)
  ultimately show ?thesis
    by (simp add: cfg10_fields env10_def env1_def world10_def world1_def env_or_def
          parse_amount_default)
qed

theorem interactive_allowance_shortfall_witness:
  "(10000::int) < 10000 * totalSwaps cfg10
   \<and> approvals (calls (run cfg10 [Start, AddressResult (Inr ''0xme''),
                                   AllowanceResult (Inr 10000)])) = []
   \<and> SendApprove MaxUint256 \<in> set (fst (approve_if_needed env10 world10 10000))"
  using interactive_allowance_shortfall by simp

section \<open>Who awaits the confirmation of a swap\<close>

text \<open>
  C7. The batch script sends swap \<open>i + 1\<close> only after the wait for the receipt of swap \<open>i\<close>
  has settled, and the wait stands between the two sends. The interactive loop goes from the
  dispatch of swap \<open>j\<close> through the delay to the dispatch of swap \<open>j + 1\<close> with no step of
  the chain in between: what the chain has confirmed is the same before and after.
\<close>

theorem confirmation_awaited_by_batch_only:
  "(SendSwap (Suc i) ov' \<in> set (fst (batch_send e w)) \<and> execute w i = Resolved tx
    \<longrightarrow> tx_wait w i \<noteq> Pending
        \<and> (\<exists>pre post. fst (batch_send e w) = pre @ AwaitReceipt i # post
              \<and> (\<exists>ov. SendSwap i ov \<in> set pre) \<and> SendSwap (Suc i) ov' \<in> set post))
   \<and> (phase (run cfg evs) = InWallet j t \<and> int (Suc j) < totalSwaps cfg
        \<and> \<not> stopRequested (run cfg evs)
    \<longrightarrow> phase (run cfg (evs @ [ExecuteResult (Inr h)])) = Delay j
        \<and> phase (run cfg (evs @ [ExecuteResult (Inr h), Timer])) = SwapAddress (Suc j)
        \<and> calls (run cfg (evs @ [ExecuteResult (Inr h), Timer, AddressResult (Inr a)]))
            = calls (run cfg evs) @ [GetAddress, RouterExecute (Suc j)]
        \<and> confirmed (run cfg (evs @ [ExecuteResult (Inr h), Timer, AddressResult (Inr a)]))
            = confirmed (run cfg evs))"
proof (intro conjI impI)
  assume "SendSwap (Suc i) ov' \<in> set (fst (batch_send e w)) \<and> execute w i = Resolved tx"
  then have m: "SendSwap (Suc i) ov' \<in> set (fst (batch_send e w))"
    and x: "execute w i = Resolved tx" by simp_all
  from batch_awaits_receipt [OF m x]
  show "tx_wait w i \<noteq> Pending"
    and "\<exists>pre post. fst (batch_send e w) = pre @ AwaitReceipt i # post
              \<and> (\<exists>ov. SendSwap i ov \<in> set pre) \<and> SendSwap (Suc i) ov' \<in> set post"
    by simp_all
next
  let ?s = "run cfg evs"
  assume a: "phase ?s = InWallet j t \<and> int (Suc j) < totalSwaps cfg \<and> \<not> stopRequested ?s"
  then have ph: "phase ?s = InWallet j t" by simp
  from inv_InWallet [OF inv_run ph]
  have h: "signer cfg" "parsed_ok cfg" "0 < MAX_PENDING_TRANSACTIONS cfg"
    "map_delete t (pendingTransactions ?s) = []" by auto
  define s1 where "s1 = step cfg ?s (ExecuteResult (Inr h))"
  define s2 where "s2 = step cfg s1 Timer"
  define s3 where "s3 = step cfg s2 (AddressResult (Inr a))"
  have r1: "run cfg (evs @ [ExecuteResult (Inr h)]) = s1"
    and r2: "run cfg (evs @ [ExecuteResult (Inr h), Timer]) = s2"
    and r3: "run cfg (evs @ [ExecuteResult (Inr h), Timer, AddressResult (Inr a)]) = s3"
    by (simp_all add: run_def s1_def s2_def s3_def)
  have f1: "phase s1 = Delay j" "pendingTransactions s1 = []" "calls s1 = calls ?s"
    "confirmed s1 = confirmed ?s" "stopRequested s1 = stopRequested ?s"
    using ph h by (simp_all add: s1_def step_def settled_def Let_def)
  have f2: "phase s2 = SwapAddress (Suc j)" "calls s2 = calls ?s @ [GetAddress]"
    "confirmed s2 = confirmed ?s"
    using f1 h a by (simp_all add: s2_def step_def loop_head_fields)
  have f3: "calls s3 = calls ?s @ [GetAddress, RouterExecute (Suc j)]"
    "confirmed s3 = confirmed ?s"
    using f2 by (simp_all add: s3_def step_def dispatch_def Let_def)
  show "phase (run cfg (evs @ [ExecuteResult (Inr h)])) = Delay j"
    and "phase (run cfg (evs @ [ExecuteResult (Inr h), Timer])) = SwapAddress (Suc j)"
    and "calls (run cfg (evs @ [ExecuteResult (Inr h), Timer, AddressResult (Inr a)]))
            = calls (run cfg evs) @ [GetAddress, RouterExecute (Suc j)]"
    and "confirmed (run cfg (evs @ [ExecuteResult (Inr h), Timer, AddressResult (Inr a)]))
            = confirmed (run cfg evs)"
    using f1 f2 f3 by (simp_all add: r1 r2 r3)
qed

theorem confirmation_awaited_by_batch_only_witness:
  "SendSwap (Suc 0) \<lparr>gasLimit = Some 800000, maxPriorityFeePerGas = Some 100000000,
                     maxFeePerGas = Some 11100000000\<rparr> \<in> set (fst (batch_send env1 world1))
   \<and> execute world1 0 = Resolved ''0xswap'' \<and> tx_wait world1 0 \<noteq> Pending
   \<and> phase (run cfg2 [Start, AddressResult (Inr ''0xme''), AllowanceResult (Inr 20000),
                       AddressResult (Inr ''0xme'')]) = InWallet 0 ''k3x9q0a1z''
   \<and> int (Suc 0) < totalSwaps cfg2
   \<and> \<not> stopRequested (run cfg2 [Start, AddressResult (Inr ''0xme''),
                       AllowanceResult (Inr 20000), AddressResult (Inr ''0xme'')])
   \<and> phase (run cfg2 ([Start, AddressResult (Inr ''0xme''), AllowanceResult (Inr 20000),
                        AddressResult (Inr ''0xme'')]
                       @ [ExecuteResult (Inr ''0xh0''), Timer])) = SwapAddress (Suc 0)
   \<and> confirmed (run cfg2 ([Start, AddressResult (Inr ''0xme''), AllowanceResult (Inr 20000),
                        AddressResult (Inr ''0xme'')]
                       @ [ExecuteResult (Inr ''0xh0''), Timer, AddressResult (Inr ''0xme'')]))
       = []"
proof -
  let ?w = "[Start, AddressResult (Inr ''0xme''), AllowanceResult (Inr 20000),
             AddressResult (Inr ''0xme'')]"
  have m: "SendSwap (Suc 0) \<lparr>gasLimit = Some 800000, maxPriorityFeePerGas = Some 100000000,
                     maxFeePerGas = Some 11100000000\<rparr> \<in> set (fst (batch_send env1 world1))"
    by (simp add: batch_send_env1)
  have w: "phase (run cfg2 ?w) = InWallet 0 ''k3x9q0a1z''" "\<not> stopRequested (run cfg2 ?w)"
    "confirmed (run cfg2 ?w) = []"
    using run_in_wallet [of cfg2 10000 "''0xme''" 20000 "''0xme''"]
    by (simp_all add: cfg2_fields)
  from confirmation_awaited_by_batch_only
         [of 0 "\<lparr>gasLimit = Some 800000, maxPriorityFeePerGas = Some 100000000,
                  maxFeePerGas = Some 11100000000\<rparr>" env1 world1 "''0xswap''"
             cfg2 ?w 0 "''k3x9q0a1z''" "''0xh0''" "''0xme''"]
       m w
  show ?thesis by (simp add: world1_fields cfg2_fields)
qed

section \<open>The lifetime of an entry of the pending map\<close>




section \<open>Every swap is attempted once\<close>




section \<open>The interactive allowance check looks at one swap\<close>

text \<open>
  C10. In the interactive service, when the allowance is at least the amount of one swap but
  less than the amount of all swaps, no approval is issued, neither at once nor later in the
  run, and the run goes on to the loop of swaps.
\<close>

theorem interactive_allowance_of_one_swap:
  assumes "phase (run cfg evs) = ApproveAllowance"
    and "parseUnits (amountPerSwap cfg) 6 = Inr amountInUnits"
    and "amountInUnits \<le> allowance" and "allowance < amountInUnits * totalSwaps cfg"
  shows "approvals (calls (run cfg (evs @ [AllowanceResult (Inr allowance)]))) = []
       \<and> (\<forall>evs'. Start \<notin> set evs' \<longrightarrow>
             approvals (calls (run cfg (evs @ AllowanceResult (Inr allowance) # evs'))) = [])
       \<and> run cfg (evs @ [AllowanceResult (Inr allowance)])
           = loop_head cfg 0 (addLog StatusSuccess Approved (run cfg evs))
       \<and> (0 < amountInUnits \<and> \<not> stopRequested (run cfg evs)
          \<longrightarrow> phase (run cfg (evs @ [AllowanceResult (Inr allowance)])) = SwapAddress 0
              \<or> phase (run cfg (evs @ [AllowanceResult (Inr allowance)])) = SlotWait 0)"
proof -
  let ?s = "run cfg evs" and ?s' = "run cfg (evs @ [AllowanceResult (Inr allowance)])"
  have i: "consistent cfg ?s" by (rule inv_run)
  with assms(1) have h: "signer cfg" "parsed_ok cfg" "approvals (calls ?s) = []"
    by (auto simp: consistent_def running_def)
  have eq: "?s' = loop_head cfg 0 (addLog StatusSuccess Approved ?s)"
    using assms by (simp add: run_snoc step_def on_allowance_def approved_def)
  have ap: "approvals (calls ?s') = []"
    unfolding eq using h by (simp add: loop_head_fields)
  have pa: "past_approval ?s'"
    unfolding eq using h by (simp add: past_approval_def loop_head_fields)
  have later: "approvals (calls (run cfg (evs @ AllowanceResult (Inr allowance) # evs'))) = []"
    if "Start \<notin> set evs'" for evs'
  proof -
    have "run cfg (evs @ AllowanceResult (Inr allowance) # evs') = foldl (step cfg) ?s' evs'"
      by (simp add: run_def)
    with past_approval_foldl [OF inv_run pa that] ap show ?thesis by simp
  qed
  have go: "phase ?s' = SwapAddress 0 \<or> phase ?s' = SlotWait 0"
    if "0 < amountInUnits" and "\<not> stopRequested ?s"
  proof -
    have "0 < totalSwaps cfg"
    proof (rule ccontr)
      assume "\<not> 0 < totalSwaps cfg"
      with that(1) have "amountInUnits * totalSwaps cfg \<le> 0"
        by (simp add: mult_le_0_iff)
      with assms(3,4) that(1) show False by simp
    qed
    with that(2) h show ?thesis unfolding eq by (simp add: loop_head_fields)
  qed
  from ap later eq go show ?thesis by blast
qed

theorem interactive_allowance_of_one_swap_witness:
  "phase (run cfg10 [Start, AddressResult (Inr ''0xme'')]) = ApproveAllowance
   \<and> parseUnits (amountPerSwap cfg10) 6 = Inr 10000
   \<and> (10000::int) \<le> 10000 \<and> 10000 < 10000 * totalSwaps cfg10
   \<and> approvals (calls (run cfg10 ([Start, AddressResult (Inr ''0xme'')]
                                   @ [AllowanceResult (Inr 10000)]))) = []
   \<and> phase (run cfg10 ([Start, AddressResult (Inr ''0xme'')]
                        @ [AllowanceResult (Inr 10000)])) = SwapAddress 0"
proof -
  have a: "run cfg10 [Start, AddressResult (Inr ''0xme'')] =
     \<lparr>phase = ApproveAllowance, pendingTransactions = [], stopRequested = False,
       logs = [(StatusPending, CheckingAllowance), (StatusPending, Starting)],
       calls = [GetAddress, QueryAllowance], confirmed = []\<rparr>"
    by (rule run_allowance_asked [of cfg10 10000 "''0xme''"]) (simp_all add: cfg10_fields)
  have b: "phase (run cfg10 ([Start, AddressResult (Inr ''0xme'')]
                        @ [AllowanceResult (Inr 10000)])) = SwapAddress 0"
    using run_first_swap [of cfg10 10000 "''0xme''" 10000 "''0xme''"]
    by (simp add: cfg10_fields)
  have ph: "phase (run cfg10 [Start, AddressResult (Inr ''0xme'')]) = ApproveAllowance"
    by (simp add: a)
  have lt: "10000 < 10000 * totalSwaps cfg10"
    by (simp add: cfg10_fields)
  from interactive_allowance_of_one_swap
         [OF ph cfg10_fields(6) order_refl lt]
  have "approvals (calls (run cfg10 ([Start, AddressResult (Inr ''0xme'')]
                                   @ [AllowanceResult (Inr 10000)]))) = []"
    by blast
  with ph b lt cfg10_fields(6) show ?thesis by simp
qed

end
